theory Spec2Isabelle
  imports Main "HOL-Library.AList"
begin

section \<open>Values held in a column\<close>

text \<open>
  A cell of a data frame read by \<open>pandas.read_csv\<close> is a string, an integer, a boolean or
  a float; a missing value is the float NaN. The float type is a type variable \<open>'f\<close>: no
  theorem depends on how floats are represented. Its HOL equality stands for the equality that
  pandas' hash tables use for grouping and for counting distinct values (all NaN are one key).
\<close>

datatype 'f val = VStr string | VInt int | VBool bool | VFloat 'f

text \<open>
  The exceptions of the code. \<open>ListTakenAsLabels\<close> is not one of them: it marks the one input
  of \<open>groupby\<close> on which the model does not follow the code (see \<open>groupby_groups\<close>).
\<close>

datatype error =
    FileNotFoundError string
  | ValueError string
  | KeyError string
  | TypeError
  | AttributeError
  | ParserError
  | ListTakenAsLabels

type_synonym 'f frame = "(string \<times> 'f val list) list"

text \<open>
  The libraries the class calls (pandas, numpy, random, Faker, os) are parameters of the model:
  float arithmetic and printing, the NaN-skipping column maximum and minimum, the samplers with
  an explicit generator state \<open>'g\<close>, the order in which \<open>groupby\<close> lists its groups (sorted by
  key: \<open>key_rank\<close> ranks the keys), and the file system.
\<close>

record ('f, 'g) lib =
  str_float :: "'f \<Rightarrow> string"
  isnan :: "'f \<Rightarrow> bool"
  float_of_int :: "int \<Rightarrow> 'f"
  fsub :: "'f \<Rightarrow> 'f \<Rightarrow> 'f"
  fdiv :: "'f \<Rightarrow> 'f \<Rightarrow> 'f"
  fadd :: "'f \<Rightarrow> 'f \<Rightarrow> 'f"
  nanmax :: "'f list \<Rightarrow> 'f"
  nanmin :: "'f list \<Rightarrow> 'f"
  round2 :: "'f \<Rightarrow> 'f"
  scale_negative :: "'f \<Rightarrow> bool"
  laplace1 :: "'f \<Rightarrow> 'f \<Rightarrow> 'g \<Rightarrow> 'f \<times> 'g"
  randbelow :: "nat \<Rightarrow> 'g \<Rightarrow> nat \<times> 'g"
  fake_zipcode :: "'g \<Rightarrow> string \<times> 'g"
  fake_job :: "'g \<Rightarrow> string \<times> 'g"
  fake_word :: "'g \<Rightarrow> string \<times> 'g"
  key_rank :: "'f val list \<Rightarrow> nat"
  path_exists :: "string \<Rightarrow> bool"
  read_csv :: "string \<Rightarrow> error + 'f frame"

subsection \<open>\<open>str(x)\<close>, \<open>'*' * n\<close>, \<open>s.lower()\<close>, \<open>p in s\<close>\<close>

definition digit_char :: "nat \<Rightarrow> char" where
  "digit_char n = ''0123456789'' ! n"

fun str_nat :: "nat \<Rightarrow> string" where
  "str_nat n = (if n < 10 then [digit_char n] else str_nat (n div 10) @ [digit_char (n mod 10)])"

declare str_nat.simps [simp del]

definition str_int :: "int \<Rightarrow> string" where
  "str_int i = (if i < 0 then CHR ''-'' # str_nat (nat (- i)) else str_nat (nat i))"

definition py_str :: "('f, 'g) lib \<Rightarrow> 'f val \<Rightarrow> string" where
  "py_str L v = (case v of
       VStr s \<Rightarrow> s
     | VInt i \<Rightarrow> str_int i
     | VBool b \<Rightarrow> (if b then ''True'' else ''False'')
     | VFloat f \<Rightarrow> str_float L f)"

text \<open>Python's \<open>c * n\<close> on a one-character string: the empty string when \<open>n \<le> 0\<close>.\<close>

definition py_repeat :: "char \<Rightarrow> int \<Rightarrow> string" where
  "py_repeat c n = replicate (nat n) c"

text \<open>Column names are ASCII; \<open>lower\<close> maps \<open>A\<close>..\<open>Z\<close> to \<open>a\<close>..\<open>z\<close>.\<close>

definition lower_char :: "char \<Rightarrow> char" where
  "lower_char c = (case map_of (zip ''ABCDEFGHIJKLMNOPQRSTUVWXYZ'' ''abcdefghijklmnopqrstuvwxyz'') c of
       Some l \<Rightarrow> l | None \<Rightarrow> c)"

definition lower :: "string \<Rightarrow> string" where
  "lower s = map lower_char s"

fun starts_with :: "string \<Rightarrow> string \<Rightarrow> bool" where
  "starts_with [] s = True"
| "starts_with (p # ps) [] = False"
| "starts_with (p # ps) (c # cs) = (p = c \<and> starts_with ps cs)"

text \<open>\<open>contains p s\<close> is Python's \<open>p in s\<close>: \<open>p\<close> occurs in \<open>s\<close> as a contiguous substring.\<close>

fun contains :: "string \<Rightarrow> string \<Rightarrow> bool" where
  "contains p [] = (p = [])"
| "contains p (c # cs) = (starts_with p (c # cs) \<or> contains p cs)"

section \<open>The tabular store\<close>

text \<open>
  A frame is the ordered sequence of its named columns, each the list of its cells by row
  index \<open>0, 1, ...\<close> (the index \<open>read_csv\<close> gives). A frame that \<open>read_csv\<close> returns has distinct
  column names and columns of one length (\<open>wf_frame\<close>). Columns hold any value: writing a
  string into a numeric column turns it into a column of objects, the other cells unchanged.
\<close>

definition columns :: "'f frame \<Rightarrow> string list" where
  "columns d = map fst d"

definition nrows :: "'f frame \<Rightarrow> nat" where
  "nrows d = (case d of [] \<Rightarrow> 0 | (n, xs) # rest \<Rightarrow> length xs)"

definition wf_frame :: "'f frame \<Rightarrow> bool" where
  "wf_frame d = (distinct (columns d) \<and> list_all (\<lambda>(n, xs). length xs = nrows d) d)"

definition column :: "'f frame \<Rightarrow> string \<Rightarrow> 'f val list" where
  "column d c = (case map_of d c of Some xs \<Rightarrow> xs | None \<Rightarrow> [])"

definition cell :: "'f frame \<Rightarrow> string \<Rightarrow> nat \<Rightarrow> 'f val" where
  "cell d c i = column d c ! i"

text \<open>
  The state of a run: the two attributes \<open>self.df\<close> and \<open>self.original_df\<close> (\<open>None\<close> until
  \<open>load_data\<close>), the state of the random generators, and the lines printed so far.
  \<open>self.df.copy()\<close> is a deep copy, so the two frames share no storage and are two values.
  A method returns the error it raised, if any, and the state it leaves.
\<close>

record ('f, 'g) anonymizer =
  df :: "'f frame option"
  original_df :: "'f frame option"
  rng :: 'g
  stdout :: "string list"

text \<open>A missing value is the float NaN.\<close>

definition is_missing :: "('f, 'g) lib \<Rightarrow> 'f val \<Rightarrow> bool" where
  "is_missing L v = (case v of VFloat f \<Rightarrow> isnan L f | VStr s \<Rightarrow> False | VInt i \<Rightarrow> False
                            | VBool b \<Rightarrow> False)"

subsection \<open>\<open>load_data\<close>\<close>

definition load_data ::
  "('f, 'g) lib \<Rightarrow> string \<Rightarrow> ('f, 'g) anonymizer \<Rightarrow> error option \<times> ('f, 'g) anonymizer" where
  "load_data L filepath s =
     (if \<not> path_exists L filepath then
        (Some (FileNotFoundError (''File '' @ [CHR 0x27] @ filepath @ [CHR 0x27]
                                   @ '' not found. Please check the path.'')), s)
      else case read_csv L filepath of
        Inl e \<Rightarrow> (Some e, s)
      | Inr d \<Rightarrow>
          (None, s\<lparr>df := Some d, original_df := Some d,
                   stdout := stdout s @ [''Dataset loaded successfully with '' @ str_nat (nrows d)
                       @ '' rows and '' @ str_nat (length (columns d)) @ '' columns.'']\<rparr>))"

section \<open>Differential privacy\<close>

text \<open>\<open>[gen() for _ in range(n)]\<close>, and numpy's \<open>size=n\<close>: \<open>n\<close> successive samples.\<close>

fun draws :: "('g \<Rightarrow> 'a \<times> 'g) \<Rightarrow> nat \<Rightarrow> 'g \<Rightarrow> 'a list \<times> 'g" where
  "draws gen 0 g = ([], g)"
| "draws gen (Suc n) g =
     (case gen g of (x, g1) \<Rightarrow> (case draws gen n g1 of (xs, g2) \<Rightarrow> (x # xs, g2)))"

definition num :: "('f, 'g) lib \<Rightarrow> 'f val \<Rightarrow> 'f option" where
  "num L v = (case v of VInt i \<Rightarrow> Some (float_of_int L i) | VFloat f \<Rightarrow> Some f
                      | VStr s \<Rightarrow> None | VBool b \<Rightarrow> None)"

text \<open>
  A column of integers only is an \<open>int64\<close> column: its cells, its maximum and its minimum are
  \<open>int64\<close> values, and their difference is taken in \<open>int64\<close>, where it wraps around. The division by \<open>epsilon\<close> turns
  the difference into a float. Any other numeric column is taken as a column of floats, and the
  difference is a float subtraction. (\<open>read_csv\<close> and the transforms never give a column that
  mixes integers and floats.)
\<close>

definition wrap64 :: "int \<Rightarrow> int" where
  "wrap64 z = (z + 2 ^ 63) mod 2 ^ 64 - 2 ^ 63"

definition int_cell :: "'f val \<Rightarrow> int option" where
  "int_cell v = (case v of VInt i \<Rightarrow> Some i | VFloat f \<Rightarrow> None | VStr s \<Rightarrow> None
                        | VBool b \<Rightarrow> None)"

text \<open>
  The scale of the noise for a column with cells \<open>xs\<close>, whose values as floats are \<open>fs\<close>:
  sensitivity / epsilon, the sensitivity being the column's maximum minus its minimum.
\<close>

definition dp_scale :: "('f, 'g) lib \<Rightarrow> 'f \<Rightarrow> 'f val list \<Rightarrow> 'f list \<Rightarrow> 'f" where
  "dp_scale L epsilon xs fs =
     (case those (map int_cell xs) of
        Some (i # rest) \<Rightarrow>
          (let sensitivity = wrap64 (fold max rest i - fold min rest i)
           in fdiv L (float_of_int L sensitivity) epsilon)
      | Some [] \<Rightarrow>
          (let sensitivity = fsub L (nanmax L fs) (nanmin L fs) in fdiv L sensitivity epsilon)
      | None \<Rightarrow>
          (let sensitivity = fsub L (nanmax L fs) (nanmin L fs) in fdiv L sensitivity epsilon))"

text \<open>
  One sample is drawn for each of the \<open>n\<close> rows, with location 0; a cell then holds its value
  plus its sample, rounded by \<open>round(2)\<close>.
\<close>

definition dp_noise :: "('f, 'g) lib \<Rightarrow> 'f \<Rightarrow> nat \<Rightarrow> 'g \<Rightarrow> 'f list \<times> 'g" where
  "dp_noise L scale n g = draws (laplace1 L (float_of_int L 0) scale) n g"

definition dp_values :: "('f, 'g) lib \<Rightarrow> 'f list \<Rightarrow> 'f list \<Rightarrow> 'f val list" where
  "dp_values L fs noise = map (\<lambda>x. VFloat (round2 L x)) (map2 (fadd L) fs noise)"

definition warning_line :: "string \<Rightarrow> string" where
  "warning_line col = ''Warning: Column '' @ [CHR 0x27] @ col @ [CHR 0x27] @ '' not found in dataset.''"

text \<open>
  The body of the loop for one requested column. A column with a string or a boolean in it
  makes \<open>max() - min()\<close> raise \<open>TypeError\<close>; numpy refuses a negative scale with \<open>ValueError\<close>.
  Both happen before the column is written. In the sum an integer cell is converted to a
  float, and the column written holds floats. The two assignments to \<open>self.df[col]\<close>, the sum
  and its rounding, are one update here.
\<close>

definition dp_column ::
  "('f, 'g) lib \<Rightarrow> 'f \<Rightarrow> string \<Rightarrow> ('f, 'g) anonymizer \<Rightarrow> error option \<times> ('f, 'g) anonymizer" where
  "dp_column L epsilon col s =
     (case df s of
        None \<Rightarrow> (Some AttributeError, s)
      | Some d \<Rightarrow>
          if col \<in> set (columns d) then
            (case those (map (num L) (column d col)) of
               None \<Rightarrow> (Some TypeError, s)
             | Some fs \<Rightarrow>
                 let scale = dp_scale L epsilon (column d col) fs in
                 if scale_negative L scale then (Some (ValueError ''scale < 0''), s)
                 else
                   (case dp_noise L scale (nrows d) (rng s) of (noise, g') \<Rightarrow>
                     (None, s\<lparr>df := Some (AList.update col (dp_values L fs noise) d),
                              rng := g',
                              stdout := stdout s @ [''Differential Privacy applied on '' @ [CHR 0x27]
                                  @ col @ [CHR 0x27] @ '' with epsilon='' @ str_float L epsilon @ ''.'']\<rparr>)))
          else (None, s\<lparr>stdout := stdout s @ [warning_line col]\<rparr>))"

fun apply_differential_privacy ::
  "('f, 'g) lib \<Rightarrow> string list \<Rightarrow> 'f \<Rightarrow> ('f, 'g) anonymizer \<Rightarrow> error option \<times> ('f, 'g) anonymizer" where
  "apply_differential_privacy L [] epsilon s = (None, s)"
| "apply_differential_privacy L (col # rest) epsilon s =
     (case dp_column L epsilon col s of
        (Some e, s1) \<Rightarrow> (Some e, s1)
      | (None, s1) \<Rightarrow> apply_differential_privacy L rest epsilon s1)"

section \<open>The quasi-identifier grouper\<close>

definition row_key :: "'f frame \<Rightarrow> string list \<Rightarrow> nat \<Rightarrow> 'f val list" where
  "row_key d cols i = map (\<lambda>c. cell d c i) cols"

text \<open>
  \<open>self.df.groupby(cols, dropna=False).groups\<close> (pandas 1.5 to 2.3): one entry per distinct
  key, holding the row indices with that key in ascending order; the entries are listed in
  sorted key order (a stable sort by \<open>key_rank\<close>).
  \<^item> No column name: \<open>ValueError\<close>.
  \<^item> A name that is no column: \<open>KeyError\<close>. When the list is as long as the frame, pandas
    takes it instead as an array of group labels, one per row, and groups the rows by these
    labels; the model does not follow the code there and stops with \<open>ListTakenAsLabels\<close>.
  \<^item> One grouping column that holds a missing value: \<open>.groups\<close> builds a categorical from the
    keys and raises \<open>ValueError\<close>, in spite of \<open>dropna=False\<close>.
  \<^item> Two or more grouping columns: a missing value is a key value like any other.
\<close>

definition groupby_groups ::
  "('f, 'g) lib \<Rightarrow> 'f frame \<Rightarrow> string list \<Rightarrow> error + ('f val list \<times> nat list) list" where
  "groupby_groups L d cols =
     (if cols = [] then Inl (ValueError ''No group keys passed!'')
      else case find (\<lambda>c. c \<notin> set (columns d)) cols of
        Some c \<Rightarrow> (if length cols = nrows d then Inl ListTakenAsLabels else Inl (KeyError c))
      | None \<Rightarrow>
          if length cols = 1 \<and> list_ex (is_missing L) (column d (hd cols)) then
            Inl (ValueError ''Categorical categories cannot be null'')
          else
            let rows = [0..<nrows d];
                keys = remdups (map (row_key d cols) rows)
            in Inr (map (\<lambda>key. (key, filter (\<lambda>i. row_key d cols i = key) rows))
                        (sort_key (key_rank L) keys)))"

section \<open>K-anonymity\<close>

definition suppress :: "string \<Rightarrow> string" where
  "suppress s = py_repeat CHR ''*'' (int (length s))"

definition generalize :: "string \<Rightarrow> string" where
  "generalize s = take 2 s @ py_repeat CHR ''*'' (int (length s) - 2)"

text \<open>
  \<open>df.loc[indices, col] = series\<close> aligns on the index: row \<open>i\<close> of \<open>indices\<close> receives
  \<open>series[i]\<close>. \<open>df.loc[indices, col] = [v0, v1, ...]\<close> assigns by position. Both are reached
  only with a column of the frame: \<open>groupby\<close> has raised \<open>KeyError\<close> otherwise.
\<close>

definition loc_assign_series :: "nat list \<Rightarrow> string \<Rightarrow> 'f val list \<Rightarrow> 'f frame \<Rightarrow> 'f frame" where
  "loc_assign_series indices col series d =
     AList.update col (fold (\<lambda>i xs. xs[i := series ! i]) indices (column d col)) d"

definition loc_assign_list :: "nat list \<Rightarrow> string \<Rightarrow> 'f val list \<Rightarrow> 'f frame \<Rightarrow> 'f frame" where
  "loc_assign_list indices col vals d =
     AList.update col (fold (\<lambda>(i, v) xs. xs[i := v]) (zip indices vals) (column d col)) d"

text \<open>
  \<open>random.choice(xs)\<close> is \<open>xs[i]\<close> for an index \<open>i\<close> below \<open>len(xs)\<close> taken from the generator;
  \<open>mod\<close> keeps the index in range whatever \<open>randbelow\<close> returns.
\<close>

definition random_choice :: "('f, 'g) lib \<Rightarrow> string list \<Rightarrow> 'g \<Rightarrow> string \<times> 'g" where
  "random_choice L xs g = (case randbelow L (length xs) g of (i, g') \<Rightarrow> (xs ! (i mod length xs), g'))"

text \<open>The generator the synthetic strategy takes for a column, by the column's name.\<close>

definition synthetic_gen :: "('f, 'g) lib \<Rightarrow> string \<Rightarrow> 'g \<Rightarrow> string \<times> 'g" where
  "synthetic_gen L col =
     (if contains ''zip'' (lower col) then fake_zipcode L
      else if contains ''gender'' (lower col) then random_choice L [''Male'', ''Female'']
      else if contains ''occupation'' (lower col) \<or> contains ''job'' (lower col) then fake_job L
      else fake_word L)"

text \<open>The body of the inner loop: one column of one small group.\<close>

definition rewrite_block ::
  "('f, 'g) lib \<Rightarrow> string \<Rightarrow> nat list \<Rightarrow> string \<Rightarrow> 'f frame \<times> 'g \<Rightarrow> 'f frame \<times> 'g" where
  "rewrite_block L strategy indices col st =
     (case st of (d, g) \<Rightarrow>
        if strategy = ''suppression'' then
          (loc_assign_series indices col
             (map (\<lambda>x. VStr (suppress (py_str L x))) (column d col)) d, g)
        else if strategy = ''generalization'' then
          (loc_assign_series indices col
             (map (\<lambda>x. VStr (generalize (py_str L x))) (column d col)) d, g)
        else if strategy = ''synthetic'' then
          (case draws (synthetic_gen L col) (length indices) g of
             (vals, g') \<Rightarrow> (loc_assign_list indices col (map VStr vals) d, g'))
        else (d, g))"

definition rewrite_groups ::
  "('f, 'g) lib \<Rightarrow> string \<Rightarrow> string list \<Rightarrow> ('f val list \<times> nat list) list
     \<Rightarrow> 'f frame \<times> 'g \<Rightarrow> 'f frame \<times> 'g" where
  "rewrite_groups L strategy quasi_identifiers small_groups =
     fold (\<lambda>(key, indices). fold (rewrite_block L strategy indices) quasi_identifiers) small_groups"

definition apply_k_anonymity ::
  "('f, 'g) lib \<Rightarrow> string list \<Rightarrow> int \<Rightarrow> string \<Rightarrow> ('f, 'g) anonymizer
     \<Rightarrow> error option \<times> ('f, 'g) anonymizer" where
  "apply_k_anonymity L quasi_identifiers k strategy s =
     (if strategy \<notin> set [''suppression'', ''generalization'', ''synthetic''] then
        (Some (ValueError ''Invalid strategy. Choose from: suppression, generalization, synthetic''), s)
      else case df s of
        None \<Rightarrow> (Some AttributeError, s)
      | Some d \<Rightarrow>
          (case groupby_groups L d quasi_identifiers of
             Inl e \<Rightarrow> (Some e, s)
           | Inr groups \<Rightarrow>
               let small_groups = filter (\<lambda>(key, indices). int (length indices) < k) groups in
               (case rewrite_groups L strategy quasi_identifiers small_groups (d, rng s) of
                  (d', g') \<Rightarrow>
                    (None, s\<lparr>df := Some d', rng := g',
                             stdout := stdout s @ [''K-Anonymity ('' @ strategy @ '') applied with k=''
                                 @ str_int k @ ''.'']\<rparr>))))"

section \<open>The report\<close>

text \<open>\<open>Series.nunique()\<close>: the number of distinct values, missing values left out.\<close>

definition nunique :: "('f, 'g) lib \<Rightarrow> 'f val list \<Rightarrow> nat" where
  "nunique L xs = length (remdups (filter (\<lambda>v. \<not> is_missing L v) xs))"

text \<open>The list \<open>report\<close> that the loop of \<open>get_anonymization_report\<close> builds.\<close>

definition report_entries ::
  "('f, 'g) lib \<Rightarrow> 'f frame \<Rightarrow> 'f frame \<Rightarrow> (string \<times> nat \<times> nat \<times> int) list" where
  "report_entries L orig cur =
     map (\<lambda>col. let original_unique = nunique L (column orig col);
                    anonymized_unique = nunique L (column cur col);
                    privacy_gain = int original_unique - int anonymized_unique
                in (col, original_unique, anonymized_unique, privacy_gain))
         (filter (\<lambda>col. col \<in> set (columns cur)) (columns orig))"

definition ljust :: "nat \<Rightarrow> string \<Rightarrow> string" where
  "ljust w s = s @ replicate (w - length s) CHR '' ''"

definition report_line :: "string \<times> nat \<times> nat \<times> int \<Rightarrow> string" where
  "report_line e = (case e of (col, original, anonymized, gain) \<Rightarrow>
     ljust 20 col @ '' '' @ ljust 20 (str_nat original) @ '' '' @ ljust 20 (str_nat anonymized)
       @ '' '' @ str_int gain)"

definition report_header :: "string list" where
  "report_header =
     [[CHR 0x0A] @ ''Anonymization Report:'',
      ljust 20 ''Column'' @ '' '' @ ljust 20 ''Original Unique'' @ '' ''
        @ ljust 20 ''Anonymized Unique'' @ '' '' @ ''Privacy Gain'',
      replicate 75 CHR ''-'']"

definition get_anonymization_report ::
  "('f, 'g) lib \<Rightarrow> ('f, 'g) anonymizer \<Rightarrow> error option \<times> ('f, 'g) anonymizer" where
  "get_anonymization_report L s =
     (case original_df s of
        None \<Rightarrow> (Some AttributeError, s)
      | Some orig \<Rightarrow>
          (case df s of
             None \<Rightarrow>
               (if columns orig = [] then
                  (None, s\<lparr>stdout := stdout s @ report_header @ [replicate 75 CHR ''-'']\<rparr>)
                else (Some AttributeError, s))
           | Some cur \<Rightarrow>
               (None, s\<lparr>stdout := stdout s @ report_header
                   @ map report_line (report_entries L orig cur)
                   @ [replicate 75 CHR ''-'']\<rparr>)))"

section \<open>Notions used to state the properties\<close>

text \<open>The equivalence class of row \<open>i\<close>: the rows with the same values in \<open>cols\<close>, ascending.\<close>

definition class_of :: "'f frame \<Rightarrow> string list \<Rightarrow> nat \<Rightarrow> nat list" where
  "class_of d cols i = filter (\<lambda>j. row_key d cols j = row_key d cols i) [0..<nrows d]"

definition valid_strategy :: "string \<Rightarrow> bool" where
  "valid_strategy strategy = (strategy \<in> set [''suppression'', ''generalization'', ''synthetic''])"

text \<open>
  \<open>rewritten L strategy col old new\<close>: \<open>new\<close> is what the strategy writes over a cell of column
  \<open>col\<close> that held \<open>old\<close>. The synthetic strategy writes a value of the generator chosen for
  the column.
\<close>

definition rewritten :: "('f, 'g) lib \<Rightarrow> string \<Rightarrow> string \<Rightarrow> 'f val \<Rightarrow> 'f val \<Rightarrow> bool" where
  "rewritten L strategy col old new =
     (if strategy = ''suppression'' then new = VStr (suppress (py_str L old))
      else if strategy = ''generalization'' then new = VStr (generalize (py_str L old))
      else if strategy = ''synthetic'' then (\<exists>g. new = VStr (fst (synthetic_gen L col g)))
      else new = old)"

text \<open>
  \<open>frame_step L strategy T d d'\<close>: \<open>d'\<close> has the columns and column lengths of \<open>d\<close>, the cells
  in \<open>T\<close> are rewritten and all other cells are those of \<open>d\<close>.
\<close>

definition frame_step ::
  "('f, 'g) lib \<Rightarrow> string \<Rightarrow> (string \<times> nat) set \<Rightarrow> 'f frame \<Rightarrow> 'f frame \<Rightarrow> bool" where
  "frame_step L strategy T d d' =
     (columns d' = columns d \<and> (\<forall>c. length (column d' c) = length (column d c)) \<and>
      (\<forall>c j. j < length (column d c) \<longrightarrow>
         (if (c, j) \<in> T then rewritten L strategy c (cell d c j) (cell d' c j)
          else cell d' c j = cell d c j)))"

text \<open>
  The generator calls of the synthetic strategy. \<open>gen_calls fs g\<close> calls the generators \<open>fs\<close>
  one after the other, each on the state the one before left, and returns their values and the
  last state. \<open>synthetic_calls cols groups\<close> lists the cells the loops of \<open>apply_k_anonymity\<close>
  write, in the order they write them: group by group, column by column, row by row.
\<close>

fun gen_calls :: "('g \<Rightarrow> 'a \<times> 'g) list \<Rightarrow> 'g \<Rightarrow> 'a list \<times> 'g" where
  "gen_calls [] g = ([], g)"
| "gen_calls (f # fs) g =
     (case f g of (x, g1) \<Rightarrow> (case gen_calls fs g1 of (xs, g2) \<Rightarrow> (x # xs, g2)))"

definition synthetic_calls :: "string list \<Rightarrow> ('k \<times> nat list) list \<Rightarrow> (string \<times> nat) list" where
  "synthetic_calls cols groups =
     concat (map (\<lambda>(key, indices). concat (map (\<lambda>c. map (\<lambda>i. (c, i)) indices) cols)) groups)"

text \<open>
  \<open>placed L calls d g d' g'\<close>: from frame \<open>d\<close> and generator state \<open>g\<close>, the calls for the cells
  \<open>calls\<close> leave the state \<open>g'\<close> and the frame \<open>d'\<close>, which holds at each of these cells the value
  of the last call made for it, and elsewhere what \<open>d\<close> holds.
\<close>

definition placed ::
  "('f, 'g) lib \<Rightarrow> (string \<times> nat) list \<Rightarrow> 'f frame \<Rightarrow> 'g \<Rightarrow> 'f frame \<Rightarrow> 'g \<Rightarrow> bool" where
  "placed L sched d g d' g' =
     (case gen_calls (map (\<lambda>(c, i). synthetic_gen L c) sched) g of (vals, gf) \<Rightarrow>
        g' = gf \<and> columns d' = columns d \<and> (\<forall>c. length (column d' c) = length (column d c)) \<and>
        (\<forall>p<length sched. (\<forall>q<length sched. p < q \<longrightarrow> sched ! q \<noteq> sched ! p) \<longrightarrow>
            cell d' (fst (sched ! p)) (snd (sched ! p)) = VStr (vals ! p)) \<and>
        (\<forall>c i. (c, i) \<notin> set sched \<longrightarrow> i < length (column d c) \<longrightarrow> cell d' c i = cell d c i))"

text \<open>A sequence of transform calls, each run whether or not the one before raised.\<close>

datatype 'f call =
    DP "string list" 'f
  | KAnon "string list" int string

definition run_call ::
  "('f, 'g) lib \<Rightarrow> 'f call \<Rightarrow> ('f, 'g) anonymizer \<Rightarrow> error option \<times> ('f, 'g) anonymizer" where
  "run_call L c s = (case c of
       DP cols epsilon \<Rightarrow> apply_differential_privacy L cols epsilon s
     | KAnon cols k strategy \<Rightarrow> apply_k_anonymity L cols k strategy s)"

definition run_calls :: "('f, 'g) lib \<Rightarrow> 'f call list \<Rightarrow> ('f, 'g) anonymizer \<Rightarrow> ('f, 'g) anonymizer" where
  "run_calls L cs s = fold (\<lambda>c s. snd (run_call L c s)) cs s"

subsection \<open>A small instance\<close>

text \<open>
  Floats are integers here, with \<open>-1\<close> in the place of NaN; the generator state is a counter,
  and the samplers return values made from the counter.
\<close>

definition example_frame :: "int frame" where
  "example_frame =
     [(''city'', [VStr ''Oslo'', VStr ''Rome'', VStr ''Oslo'', VStr ''X'']),
      (''zip'', [VInt 12345, VInt 7, VInt 12345, VInt 12345])]"

definition example_lib :: "(int, nat) lib" where
  "example_lib = \<lparr>
     str_float = str_int, isnan = (\<lambda>f. f = - 1), float_of_int = (\<lambda>i. i),
     fsub = (\<lambda>a b. a - b), fdiv = (\<lambda>a b. a div b), fadd = (\<lambda>a b. a + b),
     nanmax = (\<lambda>xs. case xs of [] \<Rightarrow> 0 | x # rest \<Rightarrow> fold max rest x),
     nanmin = (\<lambda>xs. case xs of [] \<Rightarrow> 0 | x # rest \<Rightarrow> fold min rest x),
     round2 = (\<lambda>x. x), scale_negative = (\<lambda>x. x < 0),
     laplace1 = (\<lambda>loc scale g. (loc + scale * (int g - 1), Suc g)),
     randbelow = (\<lambda>n g. (g mod n, Suc g)),
     fake_zipcode = (\<lambda>g. (''9000'' @ str_nat g, Suc g)),
     fake_job = (\<lambda>g. (''job'' @ str_nat g, Suc g)),
     fake_word = (\<lambda>g. (''word'' @ str_nat g, Suc g)),
     key_rank = (\<lambda>k. 0),
     path_exists = (\<lambda>p. p = ''data.csv''),
     read_csv = (\<lambda>p. Inr example_frame) \<rparr>"

definition example_state :: "(int, nat) anonymizer" where
  "example_state = \<lparr> df = Some example_frame, original_df = Some example_frame, rng = 0, stdout = [] \<rparr>"

definition example_suppressed :: "(int, nat) anonymizer" where
  "example_suppressed = \<lparr>
     df = Some [(''city'', [VStr ''Oslo'', VStr ''****'', VStr ''Oslo'', VStr ''*'']),
                (''zip'', [VInt 12345, VStr ''*'', VInt 12345, VStr ''*****''])],
     original_df = Some example_frame, rng = 0,
     stdout = [''K-Anonymity (suppression) applied with k=2.''] \<rparr>"

definition example_generalized :: "(int, nat) anonymizer" where
  "example_generalized = \<lparr>
     df = Some [(''city'', [VStr ''Oslo'', VStr ''Ro**'', VStr ''Oslo'', VStr ''X'']),
                (''zip'', [VInt 12345, VStr ''7'', VInt 12345, VStr ''12***''])],
     original_df = Some example_frame, rng = 0,
     stdout = [''K-Anonymity (generalization) applied with k=2.''] \<rparr>"

definition example_missing :: "(int, nat) anonymizer" where
  "example_missing = \<lparr>
     df = Some [(''city'', [VStr ''Oslo'', VFloat (- 1), VStr ''Oslo'']),
                (''zip'', [VInt 12345, VInt 7, VInt 12345])],
     original_df = Some [(''city'', [VStr ''Oslo'', VFloat (- 1), VStr ''Oslo'']),
                         (''zip'', [VInt 12345, VInt 7, VInt 12345])],
     rng = 0, stdout = [] \<rparr>"

definition example_wide :: "(int, nat) anonymizer" where
  "example_wide = \<lparr>
     df = Some [(''balance'', [VInt (2 ^ 62), VInt (- (2 ^ 62))])],
     original_df = Some [(''balance'', [VInt (2 ^ 62), VInt (- (2 ^ 62))])],
     rng = 0, stdout = [] \<rparr>"

definition example_synthetic :: "(int, nat) anonymizer" where
  "example_synthetic = \<lparr>
     df = Some [(''city'', [VStr ''Oslo'', VStr ''word0'', VStr ''Oslo'', VStr ''word2'']),
                (''zip'', [VInt 12345, VStr ''90001'', VInt 12345, VStr ''90003''])],
     original_df = Some example_frame, rng = 4,
     stdout = [''K-Anonymity (synthetic) applied with k=2.''] \<rparr>"

definition example_initial :: "(int, nat) anonymizer" where
  "example_initial = \<lparr> df = None, original_df = None, rng = 0, stdout = [] \<rparr>"

definition example_noised :: "(int, nat) anonymizer" where
  "example_noised = \<lparr>
     df = Some [(''city'', [VStr ''Oslo'', VStr ''Rome'', VStr ''Oslo'', VStr ''X'']),
                (''zip'', [VFloat 6176, VFloat 7, VFloat 18514, VFloat 24683])],
     original_df = Some example_frame, rng = 4,
     stdout = [warning_line ''nope'',
               ''Differential Privacy applied on '' @ [CHR 0x27] @ ''zip'' @ [CHR 0x27]
                 @ '' with epsilon=2.''] \<rparr>"

section \<open>Properties of the k-anonymity transform\<close>

lemma suppress_idem: "suppress (suppress s) = suppress s"
  by (simp add: suppress_def py_repeat_def)

lemma generalize_idem: "generalize (generalize s) = generalize s"
  by (simp add: generalize_def py_repeat_def min_def)

lemma rewritten_trans:
  "rewritten L strategy c a b \<Longrightarrow> rewritten L strategy c b b' \<Longrightarrow> rewritten L strategy c a b'"
  by (auto simp: rewritten_def py_str_def suppress_idem generalize_idem split: if_splits)

lemma frame_step_refl: "frame_step L strategy {} d d"
  by (simp add: frame_step_def)

lemma frame_step_trans:
  assumes "frame_step L strategy T1 d d1" and "frame_step L strategy T2 d1 d2"
  shows "frame_step L strategy (T1 \<union> T2) d d2"
proof -
  have cols: "columns d2 = columns d" and len: "\<And>c. length (column d2 c) = length (column d c)"
    using assms by (simp_all add: frame_step_def)
  have cellp: "(if (c, j) \<in> T1 \<union> T2 then rewritten L strategy c (cell d c j) (cell d2 c j)
          else cell d2 c j = cell d c j)" if j: "j < length (column d c)" for c j
  proof -
    have j1: "j < length (column d1 c)" using assms(1) j by (simp add: frame_step_def)
    have a: "(if (c, j) \<in> T1 then rewritten L strategy c (cell d c j) (cell d1 c j)
          else cell d1 c j = cell d c j)" using assms(1) j unfolding frame_step_def by blast
    have b: "(if (c, j) \<in> T2 then rewritten L strategy c (cell d1 c j) (cell d2 c j)
          else cell d2 c j = cell d1 c j)" using assms(2) j1 unfolding frame_step_def by blast
    show ?thesis using a b by (auto dest: rewritten_trans split: if_splits)
  qed
  show ?thesis unfolding frame_step_def using cols len cellp by blast
qed

lemma column_update:
  "column (AList.update c xs d) c' = (if c' = c then xs else column d c')"
  by (simp add: column_def update_conv')

lemma columns_update: "c \<in> set (columns d) \<Longrightarrow> columns (AList.update c xs d) = columns d"
  by (simp add: columns_def update_keys)

lemma fold_series_length: "length (fold (\<lambda>i xs. xs[i := s ! i]) idx xs) = length xs"
  by (induction idx arbitrary: xs) simp_all

lemma fold_series_nth:
  "j < length xs \<Longrightarrow> fold (\<lambda>i xs. xs[i := s ! i]) idx xs ! j = (if j \<in> set idx then s ! j else xs ! j)"
  by (induction idx arbitrary: xs) (auto simp: nth_list_update)

lemma fold_list_length: "length (fold (\<lambda>(i, v) xs. xs[i := v]) ps xs) = length xs"
  by (induction ps arbitrary: xs) auto

lemma fold_list_nth:
  "j < length xs \<Longrightarrow>
     (if j \<in> fst ` set ps then fold (\<lambda>(i, v) xs. xs[i := v]) ps xs ! j \<in> snd ` set ps
      else fold (\<lambda>(i, v) xs. xs[i := v]) ps xs ! j = xs ! j)"
proof (induction ps arbitrary: xs)
  case Nil
  then show ?case by simp
next
  case (Cons p ps)
  obtain i v where p: "p = (i, v)" by (cases p)
  have len: "j < length (xs[i := v])" using Cons.prems by simp
  note ih = Cons.IH [OF len]
  show ?case
  proof (cases "j \<in> fst ` set ps")
    case True
    then show ?thesis using ih p by auto
  next
    case False
    then show ?thesis using ih p Cons.prems by (auto simp: nth_list_update)
  qed
qed

lemma draws_length: "length (fst (draws gen n g)) = n"
proof (induction n arbitrary: g)
  case 0
  then show ?case by simp
next
  case (Suc n)
  obtain x g1 where a: "gen g = (x, g1)" by (cases "gen g")
  obtain xs g2 where b: "draws gen n g1 = (xs, g2)" by (cases "draws gen n g1")
  have "length xs = n" using Suc.IH [of g1] b by simp
  then show ?case using a b by simp
qed

lemma draws_range: "x \<in> set (fst (draws gen n g)) \<Longrightarrow> \<exists>g'. x = fst (gen g')"
proof (induction n arbitrary: g)
  case 0
  then show ?case by simp
next
  case (Suc n)
  obtain y g1 where a: "gen g = (y, g1)" by (cases "gen g")
  obtain xs g2 where b: "draws gen n g1 = (xs, g2)" by (cases "draws gen n g1")
  have "x = y \<or> x \<in> set xs" using Suc.prems a b by simp
  then show ?case
  proof
    assume "x = y"
    then have "x = fst (gen g)" using a by simp
    then show ?thesis by blast
  next
    assume "x \<in> set xs"
    then have "x \<in> set (fst (draws gen n g1))" using b by simp
    then show ?thesis by (rule Suc.IH)
  qed
qed


lemma series_step:
  assumes c: "c \<in> set (columns d)"
    and f: "\<And>x. rewritten L strategy c x (f x)"
  shows "frame_step L strategy ({c} \<times> set idx) d (loc_assign_series idx c (map f (column d c)) d)"
  unfolding frame_step_def loc_assign_series_def
  using c f
  by (auto simp: columns_update column_update fold_series_length fold_series_nth cell_def)

lemma list_step:
  assumes c: "c \<in> set (columns d)"
    and len: "length vals = length idx"
    and v: "\<And>x j. x \<in> set vals \<Longrightarrow> rewritten L strategy c (cell d c j) x"
  shows "frame_step L strategy ({c} \<times> set idx) d (loc_assign_list idx c vals d)"
proof -
  let ?ps = "zip idx vals"
  let ?new = "fold (\<lambda>(i, v) xs. xs[i := v]) ?ps (column d c)"
  have fst_ps: "fst ` set ?ps = set idx" using len
    by (metis map_fst_zip set_map)
  have snd_ps: "snd ` set ?ps = set vals" using len
    by (metis map_snd_zip set_map)
  have cellp: "(if j \<in> set idx then rewritten L strategy c (column d c ! j) (?new ! j)
               else ?new ! j = column d c ! j)" if j: "j < length (column d c)" for j
  proof (cases "j \<in> set idx")
    case True
    then have "?new ! j \<in> snd ` set ?ps" using fold_list_nth [OF j, of ?ps] fst_ps by simp
    then have "?new ! j \<in> set vals" using snd_ps by simp
    then show ?thesis using v [of "?new ! j" j] True by (simp add: cell_def)
  next
    case False
    then show ?thesis using fold_list_nth [OF j, of ?ps] fst_ps by simp
  qed
  show ?thesis
    unfolding frame_step_def loc_assign_list_def
    using c cellp
    by (auto simp: columns_update column_update fold_list_length cell_def)
qed

lemma rewrite_block_step:
  assumes c: "c \<in> set (columns d)" and vs: "valid_strategy strategy"
  shows "frame_step L strategy ({c} \<times> set idx) d (fst (rewrite_block L strategy idx c (d, g)))"
proof -
  consider "strategy = ''suppression''" | "strategy = ''generalization''" | "strategy = ''synthetic''"
    using vs by (auto simp: valid_strategy_def)
  then show ?thesis
  proof cases
    case 1
    have "frame_step L strategy ({c} \<times> set idx) d
            (loc_assign_series idx c (map (\<lambda>x. VStr (suppress (py_str L x))) (column d c)) d)"
      by (rule series_step [OF c]) (simp add: rewritten_def 1)
    then show ?thesis by (simp add: rewrite_block_def 1)
  next
    case 2
    have "frame_step L strategy ({c} \<times> set idx) d
            (loc_assign_series idx c (map (\<lambda>x. VStr (generalize (py_str L x))) (column d c)) d)"
      by (rule series_step [OF c]) (simp add: rewritten_def 2)
    then show ?thesis by (simp add: rewrite_block_def 2)
  next
    case 3
    obtain vals g' where dr: "draws (synthetic_gen L c) (length idx) g = (vals, g')"
      by (cases "draws (synthetic_gen L c) (length idx) g")
    have len: "length (map VStr vals) = length idx"
      using draws_length [of "synthetic_gen L c" "length idx" g] dr by simp
    have rw: "rewritten L strategy c (cell d c j) x" if "x \<in> set (map VStr vals)" for x j
    proof -
      have "x \<in> VStr ` set vals" using that by simp
      then obtain w where w: "x = VStr w" "w \<in> set vals" by (rule imageE)
      have "w \<in> set (fst (draws (synthetic_gen L c) (length idx) g))" using w dr by simp
      then have "\<exists>g0. w = fst (synthetic_gen L c g0)" by (rule draws_range)
      then obtain g0 where "w = fst (synthetic_gen L c g0)" ..
      then show ?thesis using w by (auto simp: rewritten_def 3)
    qed
    have "frame_step L strategy ({c} \<times> set idx) d (loc_assign_list idx c (map VStr vals) d)"
      by (rule list_step [OF c len rw])
    then show ?thesis by (simp add: rewrite_block_def 3 dr)
  qed
qed

lemma rewrite_cols_step:
  assumes vs: "valid_strategy strategy"
  shows "set cs \<subseteq> set (columns d) \<Longrightarrow>
     frame_step L strategy (set cs \<times> set idx) d (fst (fold (rewrite_block L strategy idx) cs (d, g)))"
proof (induction cs arbitrary: d g)
  case Nil
  then show ?case by (simp add: frame_step_refl)
next
  case (Cons c cs)
  obtain d1 g1 where b: "rewrite_block L strategy idx c (d, g) = (d1, g1)"
    by (cases "rewrite_block L strategy idx c (d, g)")
  have c: "c \<in> set (columns d)" using Cons.prems by simp
  have s1: "frame_step L strategy ({c} \<times> set idx) d d1"
    using rewrite_block_step [OF c vs, of L idx g] b by simp
  then have "columns d1 = columns d" by (simp add: frame_step_def)
  then have "set cs \<subseteq> set (columns d1)" using Cons.prems by simp
  then have s2: "frame_step L strategy (set cs \<times> set idx) d1
        (fst (fold (rewrite_block L strategy idx) cs (d1, g1)))" by (rule Cons.IH)
  have "({c} \<times> set idx) \<union> (set cs \<times> set idx) = set (c # cs) \<times> set idx" by auto
  then show ?case using frame_step_trans [OF s1 s2] b by simp
qed

lemma rewrite_groups_step:
  assumes vs: "valid_strategy strategy"
  shows "set cols \<subseteq> set (columns d) \<Longrightarrow>
     frame_step L strategy (set cols \<times> (\<Union>p \<in> set gs. set (snd p))) d
        (fst (rewrite_groups L strategy cols gs (d, g)))"
proof (induction gs arbitrary: d g)
  case Nil
  then show ?case by (simp add: rewrite_groups_def frame_step_refl)
next
  case (Cons p gs)
  obtain key idx where p: "p = (key, idx)" by (cases p)
  obtain d1 g1 where b: "fold (rewrite_block L strategy idx) cols (d, g) = (d1, g1)"
    by (cases "fold (rewrite_block L strategy idx) cols (d, g)")
  have s1: "frame_step L strategy (set cols \<times> set idx) d d1"
    using rewrite_cols_step [OF vs Cons.prems, of L idx g] b by simp
  then have "columns d1 = columns d" by (simp add: frame_step_def)
  then have "set cols \<subseteq> set (columns d1)" using Cons.prems by simp
  then have s2: "frame_step L strategy (set cols \<times> (\<Union>p \<in> set gs. set (snd p))) d1
        (fst (rewrite_groups L strategy cols gs (d1, g1)))" by (rule Cons.IH)
  have "(set cols \<times> set idx) \<union> (set cols \<times> (\<Union>p \<in> set gs. set (snd p)))
        = set cols \<times> (\<Union>p \<in> set (p # gs). set (snd p))" using p by auto
  moreover have "rewrite_groups L strategy cols (p # gs) (d, g) = rewrite_groups L strategy cols gs (d1, g1)"
    using p b by (simp add: rewrite_groups_def)
  ultimately show ?case using frame_step_trans [OF s1 s2] by simp
qed

lemma groupby_groups_Inr:
  assumes "groupby_groups L d cols = Inr gs"
  shows "set cols \<subseteq> set (columns d)"
    and "gs = map (\<lambda>key. (key, filter (\<lambda>i. row_key d cols i = key) [0..<nrows d]))
               (sort_key (key_rank L) (remdups (map (row_key d cols) [0..<nrows d])))"
proof -
  have both: "set cols \<subseteq> set (columns d) \<and>
     gs = map (\<lambda>key. (key, filter (\<lambda>i. row_key d cols i = key) [0..<nrows d]))
               (sort_key (key_rank L) (remdups (map (row_key d cols) [0..<nrows d])))"
  proof (cases "cols = []")
    case True
    then show ?thesis using assms by (simp add: groupby_groups_def)
  next
    case False
    have fn: "find (\<lambda>c. c \<notin> set (columns d)) cols = None"
      using assms False by (auto simp: groupby_groups_def split: option.splits if_splits)
    then have sub: "set cols \<subseteq> set (columns d)" by (auto simp: find_None_iff)
    have "gs = map (\<lambda>key. (key, filter (\<lambda>i. row_key d cols i = key) [0..<nrows d]))
               (sort_key (key_rank L) (remdups (map (row_key d cols) [0..<nrows d])))"
      using assms False fn by (simp add: groupby_groups_def Let_def split: if_splits)
    then show ?thesis using sub by simp
  qed
  show "set cols \<subseteq> set (columns d)" using both by simp
  show "gs = map (\<lambda>key. (key, filter (\<lambda>i. row_key d cols i = key) [0..<nrows d]))
               (sort_key (key_rank L) (remdups (map (row_key d cols) [0..<nrows d])))"
    using both by simp
qed

text \<open>
  The grouper returns its classes for every non-empty list of columns of the frame, but for a
  single column that holds a missing value.
\<close>

lemma groupby_groups_returns:
  assumes "cols \<noteq> []" and "set cols \<subseteq> set (columns d)"
    and "length cols = 1 \<longrightarrow> \<not> list_ex (is_missing L) (column d (hd cols))"
  shows "\<exists>gs. groupby_groups L d cols = Inr gs"
proof -
  have "find (\<lambda>c. c \<notin> set (columns d)) cols = None"
    using assms(2) by (auto simp: find_None_iff)
  then show ?thesis using assms(1,3) by (auto simp: groupby_groups_def Let_def)
qed

lemma small_group_rows:
  assumes "groupby_groups L d cols = Inr gs"
  shows "(\<Union>p \<in> set (filter (\<lambda>(key, indices). int (length indices) < k) gs). set (snd p))
         = {i. i < nrows d \<and> int (length (class_of d cols i)) < k}"
    (is "?A = ?B")
proof -
  note gs = groupby_groups_Inr(2) [OF assms]
  show ?thesis
  proof (intro set_eqI iffI)
    fix i assume "i \<in> ?A"
    then obtain key idx where p: "(key, idx) \<in> set gs" "int (length idx) < k" "i \<in> set idx"
      by auto
    have idx: "idx = filter (\<lambda>i. row_key d cols i = key) [0..<nrows d]"
      using p(1) gs by auto
    then have i: "i < nrows d" "row_key d cols i = key" using p(3) by auto
    then have "class_of d cols i = idx" using idx by (simp add: class_of_def)
    then show "i \<in> ?B" using i p(2) by simp
  next
    fix i assume "i \<in> ?B"
    then have i: "i < nrows d" "int (length (class_of d cols i)) < k" by auto
    let ?key = "row_key d cols i"
    have "?key \<in> set (sort_key (key_rank L) (remdups (map (row_key d cols) [0..<nrows d])))"
      using i(1) by simp
    then have "(?key, class_of d cols i) \<in> set gs"
      using gs by (auto simp: class_of_def)
    moreover have "i \<in> set (class_of d cols i)" using i(1) by (simp add: class_of_def)
    ultimately show "i \<in> ?A" using i(2) by force
  qed
qed

lemma nrows_alt: "nrows d = (case columns d of [] \<Rightarrow> 0 | n # ns \<Rightarrow> length (column d n))"
  by (cases d) (auto simp: nrows_def columns_def column_def)

lemma frame_step_nrows: "frame_step L strategy T d d' \<Longrightarrow> nrows d' = nrows d"
  by (simp add: frame_step_def nrows_alt split: list.splits)

lemma wf_column_length:
  assumes "wf_frame d" and "c \<in> set (columns d)"
  shows "length (column d c) = nrows d"
proof -
  obtain xs where xs: "map_of d c = Some xs"
    using assms(2) by (metis columns_def map_of_eq_None_iff not_Some_eq set_map)
  then have "(c, xs) \<in> set d" by (rule map_of_SomeD)
  then have "length xs = nrows d" using assms(1) by (auto simp: wf_frame_def list_all_iff)
  then show ?thesis using xs by (simp add: column_def)
qed

lemma k_anonymity_effect:
  assumes run: "apply_k_anonymity L cols k strategy s = (None, s')" and d: "df s = Some d"
  shows "\<exists>d'. df s' = Some d' \<and> set cols \<subseteq> set (columns d) \<and>
           frame_step L strategy
              (set cols \<times> {i. i < nrows d \<and> int (length (class_of d cols i)) < k}) d d'"
proof -
  have vs: "valid_strategy strategy"
    using run by (auto simp: apply_k_anonymity_def valid_strategy_def split: if_splits)
  then have vs': "strategy \<in> set [''suppression'', ''generalization'', ''synthetic'']"
    by (simp add: valid_strategy_def)
  obtain gs where gs: "groupby_groups L d cols = Inr gs"
    using run d vs' by (cases "groupby_groups L d cols") (auto simp: apply_k_anonymity_def)
  let ?small = "filter (\<lambda>(key, indices). int (length indices) < k) gs"
  obtain d' g' where rw: "rewrite_groups L strategy cols ?small (d, rng s) = (d', g')"
    by (cases "rewrite_groups L strategy cols ?small (d, rng s)")
  have s': "df s' = Some d'"
    using run d vs' gs rw by (auto simp: apply_k_anonymity_def Let_def)
  have sub: "set cols \<subseteq> set (columns d)" by (rule groupby_groups_Inr(1) [OF gs])
  have "frame_step L strategy (set cols \<times> (\<Union>p \<in> set ?small. set (snd p))) d d'"
    using rewrite_groups_step [OF vs sub, of L ?small "rng s"] rw by simp
  then have "frame_step L strategy
              (set cols \<times> {i. i < nrows d \<and> int (length (class_of d cols i)) < k}) d d'"
    by (simp only: small_group_rows [OF gs])
  then show ?thesis using s' sub by blast
qed

lemma k_anonymity_cells:
  assumes "apply_k_anonymity L cols k strategy s = (None, s')" and "df s = Some d" and "wf_frame d"
  shows "\<exists>d'. df s' = Some d' \<and> columns d' = columns d \<and> nrows d' = nrows d \<and>
     (\<forall>i<nrows d. \<forall>c\<in>set cols.
        if k \<le> int (length (class_of d cols i)) then cell d' c i = cell d c i
        else rewritten L strategy c (cell d c i) (cell d' c i))"
proof -
  obtain d' where d': "df s' = Some d'" "set cols \<subseteq> set (columns d)"
    and fs: "frame_step L strategy
              (set cols \<times> {i. i < nrows d \<and> int (length (class_of d cols i)) < k}) d d'"
    using k_anonymity_effect [OF assms(1,2)] by blast
  have "if k \<le> int (length (class_of d cols i)) then cell d' c i = cell d c i
        else rewritten L strategy c (cell d c i) (cell d' c i)"
    if i: "i < nrows d" and c: "c \<in> set cols" for i c
  proof -
    have "c \<in> set (columns d)" using c d'(2) by blast
    then have "i < length (column d c)" using wf_column_length [OF assms(3)] i by simp
    then have "(if (c, i) \<in> set cols \<times> {i. i < nrows d \<and> int (length (class_of d cols i)) < k}
          then rewritten L strategy c (cell d c i) (cell d' c i)
          else cell d' c i = cell d c i)" using fs unfolding frame_step_def by blast
    then show ?thesis using i c by (auto split: if_splits)
  qed
  moreover have "columns d' = columns d" using fs by (simp add: frame_step_def)
  moreover have "nrows d' = nrows d" using fs by (rule frame_step_nrows)
  ultimately show ?thesis using d'(1) by blast
qed

section \<open>Properties of the differential-privacy transform and of the state\<close>

lemma dp_column_frame:
  assumes "dp_column L eps c s = (r, s1)" and "df s = Some d"
  shows "\<exists>d1. df s1 = Some d1 \<and> columns d1 = columns d \<and> original_df s1 = original_df s"
  using assms
  by (auto simp: dp_column_def Let_def columns_update split: if_splits option.splits prod.splits)

lemma dp_column_original: "original_df (snd (dp_column L eps c s)) = original_df s"
  by (auto simp: dp_column_def Let_def split: if_splits option.splits prod.splits)


lemma apply_dp_original:
  "original_df (snd (apply_differential_privacy L cs eps s)) = original_df s"
proof (induction cs arbitrary: s)
  case Nil
  then show ?case by simp
next
  case (Cons c cs)
  obtain r0 s0 where st: "dp_column L eps c s = (r0, s0)" by (cases "dp_column L eps c s")
  have o: "original_df s0 = original_df s" using dp_column_original [of L eps c s] st by simp
  show ?case using st o Cons.IH [of s0] by (cases r0) simp_all
qed

lemma apply_dp_append:
  "apply_differential_privacy L (xs @ ys) eps s =
     (case apply_differential_privacy L xs eps s of
        (Some e, s1) \<Rightarrow> (Some e, s1)
      | (None, s1) \<Rightarrow> apply_differential_privacy L ys eps s1)"
proof (induction xs arbitrary: s)
  case Nil
  then show ?case by simp
next
  case (Cons c cs)
  obtain r0 s0 where st: "dp_column L eps c s = (r0, s0)" by (cases "dp_column L eps c s")
  show ?case using st Cons.IH [of s0] by (cases r0) simp_all
qed

lemma k_anonymity_original:
  "original_df (snd (apply_k_anonymity L cols k strategy s)) = original_df s"
  by (auto simp: apply_k_anonymity_def Let_def split: option.splits sum.splits prod.splits)

lemma run_calls_original: "original_df (run_calls L cs s) = original_df s"
proof (induction cs arbitrary: s)
  case Nil
  then show ?case by (simp add: run_calls_def)
next
  case (Cons c cs)
  have "original_df (snd (run_call L c s)) = original_df s"
    by (cases c) (simp_all add: run_call_def apply_dp_original k_anonymity_original)
  moreover have "run_calls L (c # cs) s = run_calls L cs (snd (run_call L c s))"
    by (simp add: run_calls_def)
  ultimately show ?case using Cons.IH by simp
qed

lemma those_length: "those xs = Some ys \<Longrightarrow> length ys = length xs"
proof (induction xs arbitrary: ys)
  case Nil
  then show ?case by simp
next
  case (Cons x xs)
  then show ?case by (auto split: option.splits)
qed

lemma dp_column_effect:
  assumes "dp_column L eps c s = (None, s1)" and "df s = Some d" and "c \<in> set (columns d)"
  shows "\<exists>fs noise g'. those (map (num L) (column d c)) = Some fs \<and>
     draws (laplace1 L (float_of_int L 0) (dp_scale L eps (column d c) fs))
        (nrows d) (rng s) = (noise, g') \<and>
     df s1 = Some (AList.update c (dp_values L fs noise) d)"
  using assms
  by (auto simp: dp_column_def dp_noise_def Let_def split: option.splits if_splits prod.splits)

lemma dp_column_other:
  assumes "dp_column L eps c0 s = (r, s1)" and "df s = Some d" and "c \<noteq> c0"
  shows "\<exists>d1. df s1 = Some d1 \<and> column d1 c = column d c"
  using assms
  by (auto simp: dp_column_def Let_def column_update split: option.splits if_splits prod.splits)

lemma dp_column_nrows:
  assumes "dp_column L eps c0 s = (r, s1)" and "df s = Some d" and "wf_frame d"
  shows "\<exists>d1. df s1 = Some d1 \<and> nrows d1 = nrows d \<and> wf_frame d1"
proof (cases "r = None \<and> c0 \<in> set (columns d)")
  case True
  then obtain fs noise g' where e: "those (map (num L) (column d c0)) = Some fs"
     "draws (laplace1 L (float_of_int L 0) (dp_scale L eps (column d c0) fs))
        (nrows d) (rng s) = (noise, g')"
     "df s1 = Some (AList.update c0 (dp_values L fs noise) d)"
    using dp_column_effect [of L eps c0 s s1 d] assms by blast
  let ?d1 = "AList.update c0 (dp_values L fs noise) d"
  have lf: "length fs = nrows d"
    using those_length [OF e(1)] wf_column_length [OF assms(3)] True by simp
  have ln: "length noise = nrows d"
    using draws_length [of "laplace1 L (float_of_int L 0) (dp_scale L eps (column d c0) fs)" "nrows d" "rng s"] e(2) by simp
  have lv: "length (dp_values L fs noise) = nrows d" using lf ln by (simp add: dp_values_def)
  have cols: "columns ?d1 = columns d" using True by (simp add: columns_update)
  have lens: "length (column ?d1 c) = length (column d c)" for c
    using lv wf_column_length [OF assms(3)] True by (simp add: column_update)
  have nr: "nrows ?d1 = nrows d" by (simp add: nrows_alt cols lens split: list.splits)
  have "list_all (\<lambda>(n, xs). length xs = nrows d) ?d1"
  proof -
    have "length xs = nrows d" if "(n, xs) \<in> set ?d1" for n xs
    proof -
      have dist: "distinct (map fst ?d1)" using assms(3) cols by (simp add: wf_frame_def columns_def)
      have "map_of ?d1 n = Some xs" using that dist by simp
      then have "column ?d1 n = xs" by (simp add: column_def)
      moreover have "n \<in> set (columns ?d1)" using that unfolding columns_def by force
      then have "n \<in> set (columns d)" using cols by simp
      ultimately show ?thesis using lens [of n] wf_column_length [OF assms(3)] by simp
    qed
    then show ?thesis by (auto simp: list_all_iff)
  qed
  then have "wf_frame ?d1" using assms(3) cols nr by (simp add: wf_frame_def)
  then show ?thesis using e(3) nr by simp
next
  case False
  then have "df s1 = Some d"
    using assms(1,2)
    by (auto simp: dp_column_def Let_def split: option.splits if_splits prod.splits)
  then show ?thesis using assms(3) by simp
qed

lemma apply_dp_other:
  "apply_differential_privacy L cs eps s = (r, s1) \<Longrightarrow> df s = Some d \<Longrightarrow> wf_frame d \<Longrightarrow>
   \<exists>d1. df s1 = Some d1 \<and> (c \<notin> set cs \<longrightarrow> column d1 c = column d c) \<and> nrows d1 = nrows d \<and>
      wf_frame d1 \<and> columns d1 = columns d"
proof (induction cs arbitrary: s d)
  case Nil
  then show ?case by simp
next
  case (Cons c0 cs)
  obtain r0 s0 where st: "dp_column L eps c0 s = (r0, s0)" by (cases "dp_column L eps c0 s")
  obtain d0 where d0: "df s0 = Some d0" "nrows d0 = nrows d" "wf_frame d0"
    using dp_column_nrows [OF st Cons.prems(2,3)] by blast
  have cols0: "columns d0 = columns d" using dp_column_frame [OF st Cons.prems(2)] d0(1) by auto
  have same: "column d0 c = column d c" if "c \<noteq> c0"
    using dp_column_other [OF st Cons.prems(2) that] d0(1) by auto
  show ?case
  proof (cases r0)
    case None
    then have run: "apply_differential_privacy L cs eps s0 = (r, s1)" using Cons.prems(1) st by simp
    from Cons.IH [OF run d0(1) d0(3)] show ?thesis using same d0(2) cols0 by auto
  next
    case (Some e)
    then have "s1 = s0" using Cons.prems(1) st by simp
    then show ?thesis using d0 cols0 same by auto
  qed
qed

lemma dp_values_nth:
  "i < length fs \<Longrightarrow> i < length noise \<Longrightarrow>
     dp_values L fs noise ! i = VFloat (round2 L (fadd L (fs ! i) (noise ! i)))"
  by (simp add: dp_values_def)

section \<open>Substrings, samples and positional assignment\<close>

lemma starts_with_iff: "starts_with p s \<longleftrightarrow> (\<exists>b. s = p @ b)"
  by (induction p s rule: starts_with.induct) auto

lemma contains_iff: "contains p s \<longleftrightarrow> (\<exists>a b. s = a @ p @ b)"
proof (induction s)
  case Nil
  then show ?case by simp
next
  case (Cons c cs)
  show ?case
  proof
    assume "contains p (c # cs)"
    then consider "starts_with p (c # cs)" | "contains p cs" by auto
    then show "\<exists>a b. c # cs = a @ p @ b"
    proof cases
      case 1
      then obtain b where "c # cs = p @ b" using starts_with_iff by blast
      then have "c # cs = [] @ p @ b" by simp
      then show ?thesis by blast
    next
      case 2
      then obtain a b where "cs = a @ p @ b" using Cons.IH by blast
      then have "c # cs = (c # a) @ p @ b" by simp
      then show ?thesis by blast
    qed
  next
    assume "\<exists>a b. c # cs = a @ p @ b"
    then obtain a b where ab: "c # cs = a @ p @ b" by blast
    show "contains p (c # cs)"
    proof (cases a)
      case Nil
      then have "starts_with p (c # cs)" using ab starts_with_iff by auto
      then show ?thesis by simp
    next
      case (Cons x a')
      then have "cs = a' @ p @ b" using ab by simp
      then have "contains p cs" using Cons.IH by blast
      then show ?thesis by simp
    qed
  qed
qed

lemma fold_list_distinct_nth:
  "distinct idx \<Longrightarrow> length vals = length idx \<Longrightarrow> j < length idx \<Longrightarrow> idx ! j < length xs \<Longrightarrow>
     fold (\<lambda>(i, v) xs. xs[i := v]) (zip idx vals) xs ! (idx ! j) = vals ! j"
proof (induction idx arbitrary: vals xs j)
  case Nil
  then show ?case by simp
next
  case (Cons i idx)
  obtain v vs where vals: "vals = v # vs" using Cons.prems(2) by (cases vals) auto
  show ?case
  proof (cases j)
    case 0
    have lt: "i < length (xs[i := v])" using Cons.prems(4) 0 by simp
    have "i \<notin> fst ` set (zip idx vs)" using Cons.prems(1) by (auto dest: set_zip_leftD)
    then have "fold (\<lambda>(i, v) xs. xs[i := v]) (zip idx vs) (xs[i := v]) ! i = xs[i := v] ! i"
      using fold_list_nth [OF lt, of "zip idx vs"] by simp
    then show ?thesis using 0 vals lt by simp
  next
    case (Suc j')
    have "fold (\<lambda>(i, v) xs. xs[i := v]) (zip idx vs) (xs[i := v]) ! (idx ! j') = vs ! j'"
      using Cons.prems vals Suc by (intro Cons.IH) auto
    then show ?thesis using Suc vals by simp
  qed
qed


section \<open>The generator calls of the synthetic strategy\<close>

lemma gen_calls_draws: "draws gen n g = gen_calls (replicate n gen) g"
  by (induction n arbitrary: g) (simp_all split: prod.splits)

lemma gen_calls_append:
  "gen_calls (fs @ hs) g =
     (case gen_calls fs g of (xs, g1) \<Rightarrow> (case gen_calls hs g1 of (ys, g2) \<Rightarrow> (xs @ ys, g2)))"
  by (induction fs arbitrary: g) (simp_all split: prod.splits)

lemma gen_calls_length: "length (fst (gen_calls fs g)) = length fs"
proof (induction fs arbitrary: g)
  case Nil
  then show ?case by simp
next
  case (Cons f fs)
  obtain x g1 where a: "f g = (x, g1)" by (cases "f g")
  obtain xs g2 where b: "gen_calls fs g1 = (xs, g2)" by (cases "gen_calls fs g1")
  have "length xs = length fs" using Cons.IH [of g1] b by simp
  then show ?case using a b by simp
qed

lemma gen_calls_nth:
  "p < length fs \<Longrightarrow> fst (gen_calls fs g) ! p = fst ((fs ! p) (snd (gen_calls (take p fs) g)))"
proof (induction fs arbitrary: g p)
  case Nil
  then show ?case by simp
next
  case (Cons f fs)
  obtain x g1 where a: "f g = (x, g1)" by (cases "f g")
  obtain xs g2 where b: "gen_calls fs g1 = (xs, g2)" by (cases "gen_calls fs g1")
  show ?case
  proof (cases p)
    case 0
    then show ?thesis using a b by simp
  next
    case (Suc q)
    then have q: "q < length fs" using Cons.prems by simp
    obtain ys g3 where c: "gen_calls (take q fs) g1 = (ys, g3)"
      by (cases "gen_calls (take q fs) g1")
    have "xs ! q = fst ((fs ! q) g3)" using Cons.IH [OF q, of g1] b c by simp
    then show ?thesis using a b c Suc by simp
  qed
qed

lemma placed_Nil: "placed L [] d g d g"
  by (simp add: placed_def)

lemma placed_append:
  assumes p1: "placed L s1 d g d1 g1" and p2: "placed L s2 d1 g1 d2 g2"
    and rng1: "\<forall>e \<in> set s1. snd e < length (column d (fst e))"
  shows "placed L (s1 @ s2) d g d2 g2"
proof -
  let ?G = "\<lambda>(c, i). synthetic_gen L c"
  obtain v1 gf1 where a: "gen_calls (map ?G s1) g = (v1, gf1)"
    by (cases "gen_calls (map ?G s1) g")
  obtain v2 gf2 where b: "gen_calls (map ?G s2) g1 = (v2, gf2)"
    by (cases "gen_calls (map ?G s2) g1")
  have f1: "g1 = gf1" "columns d1 = columns d" "\<And>c. length (column d1 c) = length (column d c)"
    "\<And>p. p < length s1 \<Longrightarrow> \<forall>q<length s1. p < q \<longrightarrow> s1 ! q \<noteq> s1 ! p \<Longrightarrow>
        cell d1 (fst (s1 ! p)) (snd (s1 ! p)) = VStr (v1 ! p)"
    "\<And>c i. (c, i) \<notin> set s1 \<Longrightarrow> i < length (column d c) \<Longrightarrow> cell d1 c i = cell d c i"
    using p1 a by (simp_all add: placed_def)
  have f2: "g2 = gf2" "columns d2 = columns d1" "\<And>c. length (column d2 c) = length (column d1 c)"
    "\<And>p. p < length s2 \<Longrightarrow> \<forall>q<length s2. p < q \<longrightarrow> s2 ! q \<noteq> s2 ! p \<Longrightarrow>
        cell d2 (fst (s2 ! p)) (snd (s2 ! p)) = VStr (v2 ! p)"
    "\<And>c i. (c, i) \<notin> set s2 \<Longrightarrow> i < length (column d1 c) \<Longrightarrow> cell d2 c i = cell d1 c i"
    using p2 b by (simp_all add: placed_def)
  have l1: "length v1 = length s1" using gen_calls_length [of "map ?G s1" g] a by simp
  have all: "gen_calls (map ?G (s1 @ s2)) g = (v1 @ v2, gf2)"
    using a b f1(1) by (simp add: gen_calls_append)
  have cells: "cell d2 (fst ((s1 @ s2) ! p)) (snd ((s1 @ s2) ! p)) = VStr ((v1 @ v2) ! p)"
    if p: "p < length (s1 @ s2)"
      and last: "\<forall>q<length (s1 @ s2). p < q \<longrightarrow> (s1 @ s2) ! q \<noteq> (s1 @ s2) ! p" for p
  proof (cases "p < length s1")
    case True
    have mem: "s1 ! p \<in> set s1" using True by simp
    have "s1 ! p \<notin> set s2"
    proof
      assume "s1 ! p \<in> set s2"
      then obtain j where j: "j < length s2" "s2 ! j = s1 ! p" by (auto simp: in_set_conv_nth)
      have "length s1 + j < length (s1 @ s2)" "p < length s1 + j" using j(1) True by simp_all
      then have "(s1 @ s2) ! (length s1 + j) \<noteq> (s1 @ s2) ! p" using last by blast
      then show False using j(2) True by (simp add: nth_append)
    qed
    then have n2: "(fst (s1 ! p), snd (s1 ! p)) \<notin> set s2" by simp
    have last1: "\<forall>q<length s1. p < q \<longrightarrow> s1 ! q \<noteq> s1 ! p"
    proof (intro allI impI)
      fix q assume q: "q < length s1" "p < q"
      then have "(s1 @ s2) ! q \<noteq> (s1 @ s2) ! p" using last by simp
      then show "s1 ! q \<noteq> s1 ! p" using q True by (simp add: nth_append)
    qed
    have r: "snd (s1 ! p) < length (column d1 (fst (s1 ! p)))" using rng1 mem f1(3) by simp
    have "cell d2 (fst (s1 ! p)) (snd (s1 ! p)) = cell d1 (fst (s1 ! p)) (snd (s1 ! p))"
      by (rule f2(5) [OF n2 r])
    then show ?thesis using True f1(4) [OF True last1] l1 by (simp add: nth_append)
  next
    case False
    let ?p = "p - length s1"
    have p2: "?p < length s2" using False p by simp
    have last2: "\<forall>q<length s2. ?p < q \<longrightarrow> s2 ! q \<noteq> s2 ! ?p"
    proof (intro allI impI)
      fix q assume q: "q < length s2" "?p < q"
      then have "length s1 + q < length (s1 @ s2)" "p < length s1 + q" using False by simp_all
      then have "(s1 @ s2) ! (length s1 + q) \<noteq> (s1 @ s2) ! p" using last by blast
      then show "s2 ! q \<noteq> s2 ! ?p" using False by (simp add: nth_append)
    qed
    show ?thesis using False f2(4) [OF p2 last2] l1 by (simp add: nth_append)
  qed
  have same: "cell d2 c i = cell d c i"
    if "(c, i) \<notin> set (s1 @ s2)" and "i < length (column d c)" for c i
  proof -
    have "cell d2 c i = cell d1 c i" using that f2(5) [of c i] f1(3) by simp
    then show ?thesis using that f1(5) [of c i] by simp
  qed
  show ?thesis
    unfolding placed_def all
    using f2(1) f1(2) f2(2) f1(3) f2(3) cells same by simp
qed

lemma placed_block:
  assumes c: "c \<in> set (columns d)" and di: "distinct idx"
    and rg: "\<forall>i \<in> set idx. i < length (column d c)"
  shows "placed L (map (Pair c) idx) d g
           (fst (rewrite_block L ''synthetic'' idx c (d, g)))
           (snd (rewrite_block L ''synthetic'' idx c (d, g)))"
proof -
  let ?G = "\<lambda>(c, i). synthetic_gen L c"
  obtain vals g' where dr: "draws (synthetic_gen L c) (length idx) g = (vals, g')"
    by (cases "draws (synthetic_gen L c) (length idx) g")
  have gens: "map ?G (map (Pair c) idx) = replicate (length idx) (synthetic_gen L c)"
    by (induction idx) simp_all
  have gc: "gen_calls (map ?G (map (Pair c) idx)) g = (vals, g')"
    unfolding gens gen_calls_draws [symmetric] by (rule dr)
  have len: "length (map VStr vals) = length idx"
    using draws_length [of "synthetic_gen L c" "length idx" g] dr by simp
  let ?d1 = "loc_assign_list idx c (map VStr vals) d"
  have res: "rewrite_block L ''synthetic'' idx c (d, g) = (?d1, g')"
    by (simp add: rewrite_block_def dr)
  have cols: "columns ?d1 = columns d" using c by (simp add: loc_assign_list_def columns_update)
  have lens: "length (column ?d1 c') = length (column d c')" for c'
    by (simp add: loc_assign_list_def column_update fold_list_length)
  have fst_ps: "fst ` set (zip idx (map VStr vals)) = set idx"
    using len by (metis map_fst_zip set_map)
  have cells: "cell ?d1 (fst (map (Pair c) idx ! p)) (snd (map (Pair c) idx ! p)) = VStr (vals ! p)"
    if p: "p < length (map (Pair c) idx)" for p
  proof -
    have p': "p < length idx" using p by simp
    have ij: "idx ! p < length (column d c)" using rg p' by simp
    have "cell ?d1 c (idx ! p) = map VStr vals ! p"
      using fold_list_distinct_nth [OF di len p' ij]
      by (simp add: loc_assign_list_def cell_def column_update)
    then show ?thesis using p' len by simp
  qed
  have same: "cell ?d1 c' i = cell d c' i"
    if n: "(c', i) \<notin> set (map (Pair c) idx)" and i: "i < length (column d c')" for c' i
  proof (cases "c' = c")
    case True
    then have "i \<notin> set idx" using n by auto
    then have nin: "i \<notin> fst ` set (zip idx (map VStr vals))" unfolding fst_ps .
    have lt: "i < length (column d c)" using i True by simp
    have "fold (\<lambda>(i, v) xs. xs[i := v]) (zip idx (map VStr vals)) (column d c) ! i
            = column d c ! i"
      using fold_list_nth [OF lt, of "zip idx (map VStr vals)"] nin by (auto split: if_splits)
    then show ?thesis using True
      by (simp add: loc_assign_list_def cell_def column_update)
  next
    case False
    then show ?thesis by (simp add: loc_assign_list_def cell_def column_update)
  qed
  show ?thesis
    unfolding placed_def gc res
    using cols lens cells same by simp
qed

lemma placed_cols:
  "set cs \<subseteq> set (columns d) \<Longrightarrow> distinct idx \<Longrightarrow>
   \<forall>c \<in> set cs. \<forall>i \<in> set idx. i < length (column d c) \<Longrightarrow>
   placed L (concat (map (\<lambda>c. map (Pair c) idx) cs)) d g
      (fst (fold (rewrite_block L ''synthetic'' idx) cs (d, g)))
      (snd (fold (rewrite_block L ''synthetic'' idx) cs (d, g)))"
proof (induction cs arbitrary: d g)
  case Nil
  then show ?case by (simp add: placed_Nil)
next
  case (Cons c cs)
  obtain d1 g1 where b: "rewrite_block L ''synthetic'' idx c (d, g) = (d1, g1)"
    by (cases "rewrite_block L ''synthetic'' idx c (d, g)")
  have c: "c \<in> set (columns d)" using Cons.prems(1) by simp
  have rg: "\<forall>i \<in> set idx. i < length (column d c)" using Cons.prems(3) by simp
  have s1: "placed L (map (Pair c) idx) d g d1 g1"
    using placed_block [OF c Cons.prems(2) rg, of L g] b by simp
  have cols1: "columns d1 = columns d" and lens1: "\<And>c'. length (column d1 c') = length (column d c')"
    using s1 by (auto simp: placed_def split: prod.splits)
  have s2: "placed L (concat (map (\<lambda>c. map (Pair c) idx) cs)) d1 g1
      (fst (fold (rewrite_block L ''synthetic'' idx) cs (d1, g1)))
      (snd (fold (rewrite_block L ''synthetic'' idx) cs (d1, g1)))"
    using Cons.prems cols1 lens1 by (intro Cons.IH) auto
  have r1: "\<forall>e \<in> set (map (Pair c) idx). snd e < length (column d (fst e))"
    using rg by auto
  show ?case using placed_append [OF s1 s2 r1] b by simp
qed

lemma set_synthetic_calls:
  "set (synthetic_calls cols gs) = set cols \<times> (\<Union>p \<in> set gs. set (snd p))"
proof (induction gs)
  case Nil
  then show ?case by (simp add: synthetic_calls_def)
next
  case (Cons p gs)
  obtain key idx where p: "p = (key, idx)" by (cases p)
  have "synthetic_calls cols (p # gs)
          = concat (map (\<lambda>c. map (Pair c) idx) cols) @ synthetic_calls cols gs"
    using p by (simp add: synthetic_calls_def)
  moreover have "set (concat (map (\<lambda>c. map (Pair c) idx) cols)) = set cols \<times> set idx"
    by auto
  ultimately show ?case using Cons.IH p by auto
qed

lemma placed_groups:
  "set cols \<subseteq> set (columns d) \<Longrightarrow> distinct (concat (map snd gs)) \<Longrightarrow>
   \<forall>c \<in> set cols. \<forall>i \<in> set (concat (map snd gs)). i < length (column d c) \<Longrightarrow>
   placed L (synthetic_calls cols gs) d g
      (fst (rewrite_groups L ''synthetic'' cols gs (d, g)))
      (snd (rewrite_groups L ''synthetic'' cols gs (d, g)))"
proof (induction gs arbitrary: d g)
  case Nil
  then show ?case by (simp add: synthetic_calls_def rewrite_groups_def placed_Nil)
next
  case (Cons p gs)
  obtain key idx where p: "p = (key, idx)" by (cases p)
  let ?s1 = "concat (map (\<lambda>c. map (Pair c) idx) cols)"
  obtain d1 g1 where b: "fold (rewrite_block L ''synthetic'' idx) cols (d, g) = (d1, g1)"
    by (cases "fold (rewrite_block L ''synthetic'' idx) cols (d, g)")
  have di: "distinct idx" using Cons.prems(2) p by simp
  have rg: "\<forall>c \<in> set cols. \<forall>i \<in> set idx. i < length (column d c)"
    using Cons.prems(3) p by simp
  have s1: "placed L ?s1 d g d1 g1"
    using placed_cols [OF Cons.prems(1) di rg, of L g] b by simp
  have cols1: "columns d1 = columns d" and lens1: "\<And>c'. length (column d1 c') = length (column d c')"
    using s1 by (auto simp: placed_def split: prod.splits)
  have s2: "placed L (synthetic_calls cols gs) d1 g1
      (fst (rewrite_groups L ''synthetic'' cols gs (d1, g1)))
      (snd (rewrite_groups L ''synthetic'' cols gs (d1, g1)))"
    using Cons.prems cols1 lens1 p by (intro Cons.IH) auto
  have r1: "\<forall>e \<in> set ?s1. snd e < length (column d (fst e))" using rg by auto
  have sc: "synthetic_calls cols (p # gs) = ?s1 @ synthetic_calls cols gs"
    using p by (simp add: synthetic_calls_def)
  have rw: "rewrite_groups L ''synthetic'' cols (p # gs) (d, g)
            = rewrite_groups L ''synthetic'' cols gs (d1, g1)"
    using p b by (simp add: rewrite_groups_def)
  show ?case using placed_append [OF s1 s2 r1] by (simp add: sc rw)
qed

lemma distinct_block_calls:
  "distinct cs \<Longrightarrow> distinct idx \<Longrightarrow> distinct (concat (map (\<lambda>c. map (Pair c) idx) cs))"
  by (induction cs) (auto simp: distinct_map inj_on_def)

lemma distinct_synthetic_calls:
  "distinct cols \<Longrightarrow> distinct (concat (map snd gs)) \<Longrightarrow> distinct (synthetic_calls cols gs)"
proof (induction gs)
  case Nil
  then show ?case by (simp add: synthetic_calls_def)
next
  case (Cons p gs)
  obtain key idx where p: "p = (key, idx)" by (cases p)
  have sc: "synthetic_calls cols (p # gs)
              = concat (map (\<lambda>c. map (Pair c) idx) cols) @ synthetic_calls cols gs"
    using p by (simp add: synthetic_calls_def)
  have "distinct (concat (map (\<lambda>c. map (Pair c) idx) cols))"
    using Cons.prems p by (intro distinct_block_calls) auto
  moreover have "distinct (synthetic_calls cols gs)" using Cons by simp
  moreover have "set (concat (map (\<lambda>c. map (Pair c) idx) cols)) \<inter> set (synthetic_calls cols gs) = {}"
    using Cons.prems(2) p by (auto simp: set_synthetic_calls)
  ultimately show ?case by (simp add: sc)
qed

lemma distinct_class_rows:
  "distinct ks \<Longrightarrow> distinct rows \<Longrightarrow>
     distinct (concat (map (\<lambda>key. filter (\<lambda>i. f i = key) rows) ks))"
  by (induction ks) auto

lemma distinct_filter_groups:
  "distinct (concat (map snd gs)) \<Longrightarrow> distinct (concat (map snd (filter P gs)))"
  by (induction gs) auto

lemma groupby_rows_distinct:
  assumes "groupby_groups L d cols = Inr gs"
  shows "distinct (concat (map snd gs))" and "set (concat (map snd gs)) \<subseteq> {0..<nrows d}"
proof -
  note gs = groupby_groups_Inr(2) [OF assms]
  have "map snd gs = map (\<lambda>key. filter (\<lambda>i. row_key d cols i = key) [0..<nrows d])
                       (sort_key (key_rank L) (remdups (map (row_key d cols) [0..<nrows d])))"
    by (simp add: gs comp_def)
  then show "distinct (concat (map snd gs))" by (simp add: distinct_class_rows)
  show "set (concat (map snd gs)) \<subseteq> {0..<nrows d}" by (auto simp: gs)
qed

lemma synthetic_run_calls:
  assumes run: "apply_k_anonymity L cols k ''synthetic'' s = (None, s')" and d: "df s = Some d"
    and wf: "wf_frame d"
  shows "\<exists>gs d' vals. groupby_groups L d cols = Inr gs \<and> df s' = Some d' \<and>
     (let calls = synthetic_calls cols (filter (\<lambda>(key, indices). int (length indices) < k) gs)
      in gen_calls (map (\<lambda>(c, i). synthetic_gen L c) calls) (rng s) = (vals, rng s') \<and>
         (distinct cols \<longrightarrow> distinct calls) \<and>
         set calls = set cols \<times> {i. i < nrows d \<and> int (length (class_of d cols i)) < k} \<and>
         (\<forall>p < length calls. (\<forall>q < length calls. p < q \<longrightarrow> calls ! q \<noteq> calls ! p) \<longrightarrow>
            cell d' (fst (calls ! p)) (snd (calls ! p)) = VStr (vals ! p)))"
proof -
  obtain gs where gs: "groupby_groups L d cols = Inr gs"
    using run d by (cases "groupby_groups L d cols") (auto simp: apply_k_anonymity_def)
  let ?small = "filter (\<lambda>(key, indices). int (length indices) < k) gs"
  let ?calls = "synthetic_calls cols ?small"
  obtain d' g' where rw: "rewrite_groups L ''synthetic'' cols ?small (d, rng s) = (d', g')"
    by (cases "rewrite_groups L ''synthetic'' cols ?small (d, rng s)")
  have s': "df s' = Some d'" "rng s' = g'"
    using run d gs rw by (auto simp: apply_k_anonymity_def Let_def)
  have sub: "set cols \<subseteq> set (columns d)" by (rule groupby_groups_Inr(1) [OF gs])
  have dist: "distinct (concat (map snd ?small))"
    by (rule distinct_filter_groups [OF groupby_rows_distinct(1) [OF gs]])
  have rows: "set (concat (map snd ?small)) \<subseteq> {0..<nrows d}"
    using groupby_rows_distinct(2) [OF gs] by auto
  have rg: "\<forall>c \<in> set cols. \<forall>i \<in> set (concat (map snd ?small)). i < length (column d c)"
  proof (intro ballI)
    fix c i assume c: "c \<in> set cols" and i: "i \<in> set (concat (map snd ?small))"
    have "c \<in> set (columns d)" using c sub by blast
    then have "length (column d c) = nrows d" by (rule wf_column_length [OF wf])
    moreover have "i \<in> {0..<nrows d}" using i rows by (rule subsetD [rotated])
    then have "i < nrows d" by simp
    ultimately show "i < length (column d c)" by simp
  qed
  have pl: "placed L ?calls d (rng s) d' g'"
    using placed_groups [OF sub dist rg, of L "rng s"] rw by simp
  obtain vals gf where gc: "gen_calls (map (\<lambda>(c, i). synthetic_gen L c) ?calls) (rng s) = (vals, gf)"
    by (cases "gen_calls (map (\<lambda>(c, i). synthetic_gen L c) ?calls) (rng s)")
  have g': "g' = gf"
    and cells: "\<forall>p < length ?calls. (\<forall>q < length ?calls. p < q \<longrightarrow> ?calls ! q \<noteq> ?calls ! p) \<longrightarrow>
        cell d' (fst (?calls ! p)) (snd (?calls ! p)) = VStr (vals ! p)"
    using pl gc by (simp_all add: placed_def)
  have gc': "gen_calls (map (\<lambda>(c, i). synthetic_gen L c) ?calls) (rng s) = (vals, rng s')"
    using gc g' s'(2) by simp
  have dcalls: "distinct cols \<longrightarrow> distinct ?calls"
    using distinct_synthetic_calls [OF _ dist] by blast
  have scalls: "set ?calls = set cols \<times> {i. i < nrows d \<and> int (length (class_of d cols i)) < k}"
    by (simp only: set_synthetic_calls small_group_rows [OF gs])
  show ?thesis
    unfolding Let_def using gs s'(1) gc' dcalls scalls cells by blast
qed

section \<open>What the grouper returns, and what a pass of the privacy transform writes\<close>

text \<open>
  When the grouper returns, its classes partition the row indices: every row index lies in
  exactly one class, the classes together are all the row indices, each class is ascending,
  not empty and holds exactly the rows with its key, and no key occurs twice.
\<close>

lemma groupby_partition:
  assumes "groupby_groups L d cols = Inr gs"
  shows "(\<forall>i<nrows d. \<exists>!j. j < length gs \<and> i \<in> set (snd (gs ! j)))
       \<and> (\<Union>p\<in>set gs. set (snd p)) = {0..<nrows d}
       \<and> (\<forall>p\<in>set gs. sorted_wrt (<) (snd p) \<and> snd p \<noteq> [] \<and>
             (\<forall>i<nrows d. i \<in> set (snd p) \<longleftrightarrow> row_key d cols i = fst p))
       \<and> distinct (map fst gs)"
proof -
  let ?rows = "[0..<nrows d]"
  let ?ks = "sort_key (key_rank L) (remdups (map (row_key d cols) ?rows))"
  let ?F = "\<lambda>key. (key, filter (\<lambda>i. row_key d cols i = key) ?rows)"
  have gs: "gs = map ?F ?ks" by (rule groupby_groups_Inr(2) [OF assms])
  have dks: "distinct ?ks" by simp
  have sks: "set ?ks = row_key d cols ` {0..<nrows d}" by simp
  have len: "length gs = length ?ks" by (simp add: gs)
  have nth: "gs ! j = ?F (?ks ! j)" if "j < length ?ks" for j
    using that by (simp add: gs)
  have mem: "i \<in> set (snd (gs ! j)) \<longleftrightarrow> i < nrows d \<and> row_key d cols i = ?ks ! j"
    if "j < length ?ks" for i j
    using nth [OF that] by auto
  have part: "\<exists>!j. j < length gs \<and> i \<in> set (snd (gs ! j))" if i: "i < nrows d" for i
  proof -
    have "row_key d cols i \<in> set ?ks" using i by (simp only: sks) simp
    then obtain j where j: "j < length ?ks" "?ks ! j = row_key d cols i"
      unfolding in_set_conv_nth by blast
    show ?thesis
    proof (rule ex1I [of _ j])
      show "j < length gs \<and> i \<in> set (snd (gs ! j))" using j i mem [OF j(1)] len by simp
    next
      fix j' assume a: "j' < length gs \<and> i \<in> set (snd (gs ! j'))"
      then have j': "j' < length ?ks" using len by simp
      then have "?ks ! j' = row_key d cols i" using a mem [OF j'] by simp
      then have "?ks ! j' = ?ks ! j" using j(2) by simp
      then show "j' = j" using dks j(1) j' by (simp add: nth_eq_iff_index_eq)
    qed
  qed
  have un: "(\<Union>p\<in>set gs. set (snd p)) = {0..<nrows d}"
  proof (intro set_eqI iffI)
    fix i assume "i \<in> (\<Union>p\<in>set gs. set (snd p))"
    then show "i \<in> {0..<nrows d}" by (auto simp: gs)
  next
    fix i assume "i \<in> {0..<nrows d}"
    then have i: "i < nrows d" by simp
    obtain j where "j < length gs" "i \<in> set (snd (gs ! j))" using part [OF i] by blast
    then show "i \<in> (\<Union>p\<in>set gs. set (snd p))" by (meson UN_I nth_mem)
  qed
  have each: "sorted_wrt (<) (snd p) \<and> snd p \<noteq> [] \<and>
             (\<forall>i<nrows d. i \<in> set (snd p) \<longleftrightarrow> row_key d cols i = fst p)" if p: "p \<in> set gs" for p
  proof -
    obtain key where key: "key \<in> set ?ks" "p = ?F key" using p gs by auto
    obtain i where i: "i < nrows d" "row_key d cols i = key" using key(1) by (auto simp: sks)
    have "i \<in> set (snd p)" using i key(2) by simp
    then have "snd p \<noteq> []" by auto
    moreover have "sorted_wrt (<) (snd p)" using key(2) by (simp add: sorted_wrt_filter)
    ultimately show ?thesis using key(2) by auto
  qed
  have dk: "distinct (map fst gs)"
  proof -
    have "map fst gs = ?ks" by (simp add: gs comp_def)
    then show ?thesis using dks by simp
  qed
  show ?thesis using part un each dk by blast
qed


text \<open>
  When a call of \<open>apply_differential_privacy\<close> returns: for the last pass on a requested
  column of the store, with \<open>cur\<close> the store when that pass starts, one sample per row is drawn
  with location 0 and the scale of the column in \<open>cur\<close>, and the column then holds, row by row,
  the value plus its sample, rounded.
\<close>

lemma dp_pass_values:
  assumes "apply_differential_privacy L (before @ col # rest) eps s = (None, s')"
    and "df s = Some d" and "wf_frame d" and "col \<in> set (columns d)" and "col \<notin> set rest"
  shows "\<exists>s1 cur d' fs noise g'.
      apply_differential_privacy L before eps s = (None, s1) \<and> df s1 = Some cur \<and>
      nrows cur = nrows d \<and> (col \<notin> set before \<longrightarrow> column cur col = column d col) \<and>
      df s' = Some d' \<and>
      those (map (num L) (column cur col)) = Some fs \<and> length fs = nrows d \<and>
      draws (laplace1 L (float_of_int L 0) (dp_scale L eps (column cur col) fs))
        (nrows d) (rng s1) = (noise, g') \<and> length noise = nrows d \<and>
      column d' col = map (\<lambda>x. VFloat (round2 L x)) (map2 (fadd L) fs noise) \<and>
      (\<forall>i<nrows d. cell d' col i = VFloat (round2 L (fadd L (fs ! i) (noise ! i))))"
proof -
  obtain r1 s1 where b: "apply_differential_privacy L before eps s = (r1, s1)"
    by (cases "apply_differential_privacy L before eps s")
  have r1: "r1 = None" using assms(1) b by (cases r1) (simp_all add: apply_dp_append)
  have tail: "apply_differential_privacy L (col # rest) eps s1 = (None, s')"
    using assms(1) b r1 by (simp add: apply_dp_append)
  obtain cur where cur: "df s1 = Some cur" "col \<notin> set before \<longrightarrow> column cur col = column d col"
      "nrows cur = nrows d" "wf_frame cur" "columns cur = columns d"
    using apply_dp_other [OF b assms(2,3), of col] by blast
  obtain r2 s2 where st: "dp_column L eps col s1 = (r2, s2)" by (cases "dp_column L eps col s1")
  have r2: "r2 = None" using tail st by (cases r2) simp_all
  have run: "apply_differential_privacy L rest eps s2 = (None, s')" using tail st r2 by simp
  have mem: "col \<in> set (columns cur)" using cur(5) assms(4) by simp
  obtain fs noise g' where e: "those (map (num L) (column cur col)) = Some fs"
       "draws (laplace1 L (float_of_int L 0) (dp_scale L eps (column cur col) fs))
          (nrows cur) (rng s1) = (noise, g')"
       "df s2 = Some (AList.update col (dp_values L fs noise) cur)"
    using dp_column_effect [of L eps col s1 s2 cur] st r2 cur(1) mem by blast
  obtain d2 where d2: "df s2 = Some d2" "wf_frame d2"
    using dp_column_nrows [OF st cur(1,4)] by blast
  have c2: "column d2 col = dp_values L fs noise" using e(3) d2(1) by (auto simp: column_update)
  obtain d' where d': "df s' = Some d'" "column d' col = column d2 col"
    using apply_dp_other [OF run d2, of col] assms(5) by blast
  have lf: "length fs = nrows d"
    using those_length [OF e(1)] wf_column_length [OF cur(4) mem] cur(3) by simp
  have ln: "length noise = nrows d"
    using draws_length [of "laplace1 L (float_of_int L 0) (dp_scale L eps (column cur col) fs)" "nrows cur" "rng s1"] e(2) cur(3) by simp
  have col': "column d' col = dp_values L fs noise" using d'(2) c2 by simp
  have cells: "\<forall>i<nrows d. cell d' col i = VFloat (round2 L (fadd L (fs ! i) (noise ! i)))"
    using col' lf ln by (simp add: cell_def dp_values_nth)
  have colmap: "column d' col = map (\<lambda>x. VFloat (round2 L x)) (map2 (fadd L) fs noise)"
    using col' by (simp add: dp_values_def)
  have b': "apply_differential_privacy L before eps s = (None, s1)" using b r1 by simp
  have e2: "draws (laplace1 L (float_of_int L 0) (dp_scale L eps (column cur col) fs))
          (nrows d) (rng s1) = (noise, g')" using e(2) cur(3) by simp
  show ?thesis
    using b' cur(1) cur(3) cur(2) d'(1) e(1) lf e2 ln colmap cells by blast
qed


section \<open>The instance, evaluated\<close>

lemma replicate_numeral: "replicate (numeral n) x = x # replicate (pred_numeral n) x"
  by (simp add: numeral_eq_Suc)

lemmas eval_defs = replicate_numeral apply_k_anonymity_def groupby_groups_def rewrite_groups_def rewrite_block_def
  loc_assign_series_def loc_assign_list_def suppress_def generalize_def py_repeat_def py_str_def
  str_int_def str_nat.simps digit_char_def columns_def nrows_def row_key_def cell_def column_def
  example_frame_def example_lib_def example_state_def upt_conv_Cons Let_def sort_key_def
  AList.update.simps

lemma example_wf: "wf_frame example_frame"
  by (simp add: wf_frame_def example_frame_def columns_def nrows_def)

lemma example_df: "df example_state = Some example_frame"
  by (simp add: example_state_def)

lemma example_groups:
  "groupby_groups example_lib example_frame [''city'', ''zip''] =
     Inr [([VStr ''Rome'', VInt 7], [1]), ([VStr ''Oslo'', VInt 12345], [0, 2]),
          ([VStr ''X'', VInt 12345], [3])]"
  by (simp add: eval_defs)

lemma example_run_suppression:
  "apply_k_anonymity example_lib [''city'', ''zip''] 2 ''suppression'' example_state
     = (None, example_suppressed)"
  by (simp add: eval_defs example_suppressed_def)

lemma example_run_generalization:
  "apply_k_anonymity example_lib [''city'', ''zip''] 2 ''generalization'' example_state
     = (None, example_generalized)"
  by (simp add: eval_defs example_generalized_def)

lemma example_run_synthetic:
  "apply_k_anonymity example_lib [''city'', ''zip''] 2 ''synthetic'' example_state
     = (None, example_synthetic)"
  by (simp add: eval_defs example_synthetic_def synthetic_gen_def lower_def lower_char_def
      is_missing_def)

lemma example_class_3: "class_of example_frame [''city'', ''zip''] 3 = [3]"
  by (simp add: class_of_def example_frame_def nrows_def row_key_def cell_def column_def upt_conv_Cons)

lemma example_nrows: "nrows example_frame = 4"
  by (simp add: example_frame_def nrows_def)


lemma example_columns: "columns example_frame = [''city'', ''zip'']"
  by (simp add: example_frame_def columns_def)

lemma example_load:
  "load_data example_lib ''data.csv'' example_initial
     = (None, snd (load_data example_lib ''data.csv'' example_initial))"
  by (simp add: load_data_def example_lib_def)

lemma example_dp_skip:
  "dp_column example_lib 2 ''nope'' example_state
     = (None, example_state\<lparr>stdout := [warning_line ''nope'']\<rparr>)"
  by (simp add: dp_column_def eval_defs)

lemma example_dp_nums:
  "those (map (num example_lib) (column example_frame ''zip'')) = Some [12345, 7, 12345, 12345]"
  by (simp add: num_def eval_defs)

lemma example_dp_scale:
  "dp_scale example_lib 2 (column example_frame ''zip'') [12345, 7, 12345, 12345] = 6169"
  by (simp add: dp_scale_def int_cell_def wrap64_def example_lib_def example_frame_def column_def)

lemma example_dp_noise:
  "dp_noise example_lib 6169 (nrows example_frame) 0 = ([-6169, 0, 6169, 12338], 4)"
  by (simp add: dp_noise_def example_lib_def example_frame_def nrows_def)

lemma example_dp_zip:
  "dp_column example_lib 2 ''zip'' (example_state\<lparr>stdout := [warning_line ''nope'']\<rparr>)
     = (None, example_noised)"
  apply (simp add: dp_column_def example_state_def example_columns example_dp_nums
      example_dp_scale example_dp_noise)
  apply (simp add: example_noised_def example_frame_def dp_values_def example_lib_def
      str_int_def str_nat.simps digit_char_def)
  done

lemma example_run_dp:
  "apply_differential_privacy example_lib ([''nope''] @ ''zip'' # []) 2 example_state
     = (None, example_noised)"
  by (simp add: example_dp_skip example_dp_zip)


section \<open>The claims\<close>

text \<open>
  C1. After \<open>apply_k_anonymity(cols, k, strategy)\<close> has returned, take any row \<open>i\<close> and its
  equivalence class over \<open>cols\<close> in the frame as it was before the call. If the class has at
  least \<open>k\<close> rows, the row's cells in every column of \<open>cols\<close> are unchanged; if it has fewer,
  each of them is rewritten by the strategy, from the value it had before the call. The classes
  are those of the frame before the call: rewriting one grouping column does not change the
  classes used for the next.
\<close>

theorem k_anonymity_postcondition:
  assumes "apply_k_anonymity L cols k strategy s = (None, s')" and "df s = Some d" and "wf_frame d"
  shows "\<exists>d'. df s' = Some d' \<and> columns d' = columns d \<and> nrows d' = nrows d \<and>
     (\<forall>i<nrows d. \<forall>c\<in>set cols.
        if k \<le> int (length (class_of d cols i)) then cell d' c i = cell d c i
        else rewritten L strategy c (cell d c i) (cell d' c i))"
  by (rule k_anonymity_cells [OF assms])

theorem k_anonymity_postcondition_witness:
  "apply_k_anonymity example_lib [''city'', ''zip''] 2 ''suppression'' example_state
     = (None, example_suppressed) \<and>
   df example_state = Some example_frame \<and> wf_frame example_frame \<and>
   (\<exists>d'. df example_suppressed = Some d' \<and> columns d' = columns example_frame \<and>
      nrows d' = nrows example_frame \<and>
     (\<forall>i<nrows example_frame. \<forall>c\<in>set [''city'', ''zip''].
        if 2 \<le> int (length (class_of example_frame [''city'', ''zip''] i))
        then cell d' c i = cell example_frame c i
        else rewritten example_lib ''suppression'' c (cell example_frame c i) (cell d' c i)))"
  using example_run_suppression example_df example_wf
    k_anonymity_postcondition [OF example_run_suppression example_df example_wf]
  by (intro conjI)

text \<open>
  C2. For every state and every strategy string other than \<open>suppression\<close>,
  \<open>generalization\<close> and \<open>synthetic\<close>, \<open>apply_k_anonymity\<close> raises \<open>ValueError\<close> and leaves
  the state, the store included, as it was.
\<close>

theorem invalid_strategy_raises:
  assumes "strategy \<notin> {''suppression'', ''generalization'', ''synthetic''}"
  shows "apply_k_anonymity L cols k strategy s =
     (Some (ValueError ''Invalid strategy. Choose from: suppression, generalization, synthetic''), s)"
  using assms by (simp add: apply_k_anonymity_def)

theorem invalid_strategy_raises_witness:
  "''bogus'' \<notin> {''suppression'', ''generalization'', ''synthetic''} \<and>
   apply_k_anonymity example_lib [''city''] 2 ''bogus'' example_state =
     (Some (ValueError ''Invalid strategy. Choose from: suppression, generalization, synthetic''),
      example_state)"
proof -
  have h: "''bogus'' \<notin> {''suppression'', ''generalization'', ''synthetic''}" by simp
  show ?thesis using h invalid_strategy_raises [OF h] by (intro conjI)
qed

text \<open>
  C3. A cell rewritten under \<open>generalization\<close> holds the first two characters of the string
  form of the original value followed by \<open>len - 2\<close> stars, no star when \<open>len < 2\<close>. So when the
  string form has at least two characters the output has the same first two characters and
  the same length, and when it has fewer the output is the string form itself.
\<close>

theorem generalization_prefix_and_length:
  assumes "apply_k_anonymity L cols k ''generalization'' s = (None, s')"
    and "df s = Some d" and "wf_frame d" and "df s' = Some d'"
    and "i < nrows d" and "c \<in> set cols" and "int (length (class_of d cols i)) < k"
  shows "\<exists>out. cell d' c i = VStr out \<and>
     out = take 2 (py_str L (cell d c i)) @ replicate (length (py_str L (cell d c i)) - 2) CHR ''*'' \<and>
     (2 \<le> length (py_str L (cell d c i)) \<longrightarrow>
        take 2 out = take 2 (py_str L (cell d c i)) \<and> length out = length (py_str L (cell d c i))) \<and>
     (length (py_str L (cell d c i)) < 2 \<longrightarrow> out = py_str L (cell d c i) @ replicate 0 CHR ''*'')"
proof -
  from k_anonymity_cells [OF assms(1,2,3)] assms(4,5,6,7)
  have "rewritten L ''generalization'' c (cell d c i) (cell d' c i)"
    by (auto split: if_splits)
  then have "cell d' c i = VStr (generalize (py_str L (cell d c i)))"
    by (simp add: rewritten_def)
  moreover have "generalize x = take 2 x @ replicate (length x - 2) CHR ''*''" for x
    by (simp add: generalize_def py_repeat_def nat_diff_distrib')
  ultimately show ?thesis by auto
qed

theorem generalization_prefix_and_length_witness:
  "apply_k_anonymity example_lib [''city'', ''zip''] 2 ''generalization'' example_state
     = (None, example_generalized) \<and>
   df example_state = Some example_frame \<and> wf_frame example_frame \<and>
   df example_generalized = Some (the (df example_generalized)) \<and>
   3 < nrows example_frame \<and> ''zip'' \<in> set [''city'', ''zip''] \<and>
   int (length (class_of example_frame [''city'', ''zip''] 3)) < 2 \<and>
   cell (the (df example_generalized)) ''zip'' 3 = VStr ''12***''"
proof -
  have h4: "df example_generalized = Some (the (df example_generalized))"
    by (simp add: example_generalized_def)
  have h5: "3 < nrows example_frame" by (simp add: example_nrows)
  have h6: "''zip'' \<in> set [''city'', ''zip'']" by simp
  have h7: "int (length (class_of example_frame [''city'', ''zip''] 3)) < 2"
    by (simp add: example_class_3)
  have "py_str example_lib (cell example_frame ''zip'' 3) = ''12345''"
    by (simp add: example_frame_def cell_def column_def py_str_def str_int_def str_nat.simps
        digit_char_def)
  then have "cell (the (df example_generalized)) ''zip'' 3 = VStr ''12***''"
    using generalization_prefix_and_length
      [OF example_run_generalization example_df example_wf h4 h5 h6 h7]
    by (simp add: replicate_numeral)
  then show ?thesis
    using example_run_generalization example_df example_wf h4 h5 h6 h7 by (intro conjI)
qed

text \<open>
  C4. A cell rewritten under \<open>suppression\<close> holds a string of stars only, as long as the string
  form of the original value.
\<close>

theorem suppression_stars_and_length:
  assumes "apply_k_anonymity L cols k ''suppression'' s = (None, s')"
    and "df s = Some d" and "wf_frame d" and "df s' = Some d'"
    and "i < nrows d" and "c \<in> set cols" and "int (length (class_of d cols i)) < k"
  shows "\<exists>out. cell d' c i = VStr out \<and> set out \<subseteq> {CHR ''*''} \<and>
     length out = length (py_str L (cell d c i))"
proof -
  from k_anonymity_cells [OF assms(1,2,3)] assms(4,5,6,7)
  have "rewritten L ''suppression'' c (cell d c i) (cell d' c i)"
    by (auto split: if_splits)
  then have "cell d' c i = VStr (suppress (py_str L (cell d c i)))"
    by (simp add: rewritten_def)
  then show ?thesis by (auto simp: suppress_def py_repeat_def)
qed

theorem suppression_stars_and_length_witness:
  "apply_k_anonymity example_lib [''city'', ''zip''] 2 ''suppression'' example_state
     = (None, example_suppressed) \<and>
   df example_state = Some example_frame \<and> wf_frame example_frame \<and>
   df example_suppressed = Some (the (df example_suppressed)) \<and>
   3 < nrows example_frame \<and> ''zip'' \<in> set [''city'', ''zip''] \<and>
   int (length (class_of example_frame [''city'', ''zip''] 3)) < 2 \<and>
   (\<exists>out. cell (the (df example_suppressed)) ''zip'' 3 = VStr out \<and> set out \<subseteq> {CHR ''*''} \<and>
      length out = length (py_str example_lib (cell example_frame ''zip'' 3)))"
proof -
  have h4: "df example_suppressed = Some (the (df example_suppressed))"
    by (simp add: example_suppressed_def)
  have h5: "3 < nrows example_frame" by (simp add: example_nrows)
  have h6: "''zip'' \<in> set [''city'', ''zip'']" by simp
  have h7: "int (length (class_of example_frame [''city'', ''zip''] 3)) < 2"
    by (simp add: example_class_3)
  show ?thesis
    using example_run_suppression example_df example_wf h4 h5 h6 h7
      suppression_stars_and_length
        [OF example_run_suppression example_df example_wf h4 h5 h6 h7]
    by (intro conjI)
qed

text \<open>
  C5. The claim is that the classes the grouper produces partition the row indices whatever
  the grouping columns hold, a row with a missing value lying in a class of its own key. The
  code does not do so when one column is grouped and that column holds a missing value: there
  \<open>groupby(...).groups\<close> raises \<open>ValueError\<close>, no class is produced, and \<open>apply_k_anonymity\<close>
  raises with the state as it was. (With two or more grouping columns, or with no missing
  value, the grouper returns, \<open>groupby_groups_returns\<close>, and its classes partition the rows,
  \<open>groupby_partition\<close>.)
\<close>

theorem single_column_missing_value_raises:
  assumes "df s = Some d" and "c \<in> set (columns d)" and "list_ex (is_missing L) (column d c)"
    and "strategy \<in> {''suppression'', ''generalization'', ''synthetic''}"
  shows "groupby_groups L d [c] = Inl (ValueError ''Categorical categories cannot be null'') \<and>
     apply_k_anonymity L [c] k strategy s =
       (Some (ValueError ''Categorical categories cannot be null''), s)"
proof -
  have g: "groupby_groups L d [c] = Inl (ValueError ''Categorical categories cannot be null'')"
    using assms(2,3) by (simp add: groupby_groups_def)
  have "apply_k_anonymity L [c] k strategy s =
       (Some (ValueError ''Categorical categories cannot be null''), s)"
    using assms(1,4) g by (auto simp: apply_k_anonymity_def)
  then show ?thesis using g by simp
qed

theorem single_column_missing_value_raises_witness:
  "df example_missing = Some (the (df example_missing)) \<and>
   ''city'' \<in> set (columns (the (df example_missing))) \<and>
   list_ex (is_missing example_lib) (column (the (df example_missing)) ''city'') \<and>
   ''suppression'' \<in> {''suppression'', ''generalization'', ''synthetic''} \<and>
   groupby_groups example_lib (the (df example_missing)) [''city'']
     = Inl (ValueError ''Categorical categories cannot be null'') \<and>
   apply_k_anonymity example_lib [''city''] 2 ''suppression'' example_missing
     = (Some (ValueError ''Categorical categories cannot be null''), example_missing)"
proof -
  have h1: "df example_missing = Some (the (df example_missing))"
    by (simp add: example_missing_def)
  have h2: "''city'' \<in> set (columns (the (df example_missing)))"
    by (simp add: example_missing_def columns_def)
  have h3: "list_ex (is_missing example_lib) (column (the (df example_missing)) ''city'')"
    by (simp add: example_missing_def column_def is_missing_def example_lib_def)
  have h4: "''suppression'' \<in> {''suppression'', ''generalization'', ''synthetic''}" by simp
  show ?thesis
    using h1 h2 h3 h4
      single_column_missing_value_raises [OF h1 h2 h3 h4, of 2, THEN conjunct1]
      single_column_missing_value_raises [OF h1 h2 h3 h4, of 2, THEN conjunct2]
    by (intro conjI)
qed

text \<open>
  C6. The claim is that for every requested numeric column of the store, with
  \<open>epsilon > 0\<close>, the sensitivity is the column's maximum minus its minimum and the column is
  overwritten with the noised, rounded values. The code takes the difference of an integer
  column in \<open>int64\<close>: for the column \<open>[2^62, -2^62]\<close> it wraps to \<open>-2^63\<close>, the scale
  \<open>-2^63 / epsilon\<close> is negative, the sampler raises \<open>ValueError\<close>, and the column stays as it
  was. (What a pass writes when the call returns is \<open>dp_pass_values\<close>.)
\<close>

theorem dp_int64_difference_wraps:
  assumes "df s = Some d" and "col \<in> set (columns d)"
    and "column d col = [VInt (2 ^ 62), VInt (- (2 ^ 62))]"
    and "scale_negative L (fdiv L (float_of_int L (- (2 ^ 63))) epsilon)"
  shows "dp_scale L epsilon (column d col) [float_of_int L (2 ^ 62), float_of_int L (- (2 ^ 62))]
           = fdiv L (float_of_int L (- (2 ^ 63))) epsilon \<and>
     apply_differential_privacy L [col] epsilon s = (Some (ValueError ''scale < 0''), s)"
proof -
  have sc: "dp_scale L epsilon (column d col)
              [float_of_int L (2 ^ 62), float_of_int L (- (2 ^ 62))]
           = fdiv L (float_of_int L (- (2 ^ 63))) epsilon"
    by (simp add: assms(3) dp_scale_def int_cell_def wrap64_def)
  have "dp_column L epsilon col s = (Some (ValueError ''scale < 0''), s)"
    using assms(1,2,4) sc by (simp add: dp_column_def assms(3) num_def)
  then show ?thesis using sc by simp
qed

theorem dp_int64_difference_wraps_witness:
  "df example_wide = Some (the (df example_wide)) \<and>
   ''balance'' \<in> set (columns (the (df example_wide))) \<and>
   column (the (df example_wide)) ''balance'' = [VInt (2 ^ 62), VInt (- (2 ^ 62))] \<and>
   scale_negative example_lib (fdiv example_lib (float_of_int example_lib (- (2 ^ 63))) 1) \<and>
   apply_differential_privacy example_lib [''balance''] 1 example_wide
     = (Some (ValueError ''scale < 0''), example_wide)"
proof -
  have h1: "df example_wide = Some (the (df example_wide))" by (simp add: example_wide_def)
  have h2: "''balance'' \<in> set (columns (the (df example_wide)))"
    by (simp add: example_wide_def columns_def)
  have h3: "column (the (df example_wide)) ''balance'' = [VInt (2 ^ 62), VInt (- (2 ^ 62))]"
    by (simp add: example_wide_def column_def)
  have h4: "scale_negative example_lib
              (fdiv example_lib (float_of_int example_lib (- (2 ^ 63))) 1)"
    by (simp add: example_lib_def)
  show ?thesis
    using h1 h2 h3 h4 dp_int64_difference_wraps [OF h1 h2 h3 h4, THEN conjunct2]
    by (intro conjI)
qed

text \<open>
  C7. The report has one entry for each column of the original frame that is also in the
  current frame, in the original column order; the other columns are skipped. An entry holds
  the number of distinct values of the column in the original frame, that number in the
  current frame (\<open>nunique\<close>, which leaves missing values out), and as the gain the first
  minus the second. These entries are the lines the method prints.
\<close>

theorem report_entries_gain:
  assumes "original_df s = Some orig" and "df s = Some cur"
  shows "map fst (report_entries L orig cur) = filter (\<lambda>col. col \<in> set (columns cur)) (columns orig)
     \<and> (\<forall>e \<in> set (report_entries L orig cur).
          (case e of (col, original_unique, anonymized_unique, privacy_gain) \<Rightarrow>
             original_unique = nunique L (column orig col) \<and>
             anonymized_unique = nunique L (column cur col) \<and>
             privacy_gain = int (nunique L (column orig col)) - int (nunique L (column cur col))))
     \<and> get_anonymization_report L s =
           (None, s\<lparr>stdout := stdout s @ report_header @ map report_line (report_entries L orig cur)
                       @ [replicate 75 CHR ''-'']\<rparr>)"
proof -
  have a: "map fst (report_entries L orig cur) = filter (\<lambda>col. col \<in> set (columns cur)) (columns orig)"
    by (simp add: report_entries_def Let_def comp_def)
  have b: "\<forall>e \<in> set (report_entries L orig cur).
          (case e of (col, original_unique, anonymized_unique, privacy_gain) \<Rightarrow>
             original_unique = nunique L (column orig col) \<and>
             anonymized_unique = nunique L (column cur col) \<and>
             privacy_gain = int (nunique L (column orig col)) - int (nunique L (column cur col)))"
    by (auto simp: report_entries_def Let_def)
  have c: "get_anonymization_report L s =
           (None, s\<lparr>stdout := stdout s @ report_header @ map report_line (report_entries L orig cur)
                       @ [replicate 75 CHR ''-'']\<rparr>)"
    using assms by (simp add: get_anonymization_report_def)
  show ?thesis using a b c by blast
qed

theorem report_entries_gain_witness:
  "original_df example_suppressed = Some example_frame \<and>
   df example_suppressed = Some (the (df example_suppressed)) \<and>
   report_entries example_lib example_frame (the (df example_suppressed))
     = [(''city'', 3, 3, 0), (''zip'', 2, 3, - 1)] \<and>
   map fst (report_entries example_lib example_frame (the (df example_suppressed)))
     = filter (\<lambda>col. col \<in> set (columns (the (df example_suppressed)))) (columns example_frame)"
proof -
  have h1: "original_df example_suppressed = Some example_frame"
    by (simp add: example_suppressed_def)
  have h2: "df example_suppressed = Some (the (df example_suppressed))"
    by (simp add: example_suppressed_def)
  have e: "report_entries example_lib example_frame (the (df example_suppressed))
     = [(''city'', 3, 3, 0), (''zip'', 2, 3, - 1)]"
    by (simp add: report_entries_def nunique_def is_missing_def example_suppressed_def
        example_frame_def columns_def column_def)
  show ?thesis
    using h1 h2 e report_entries_gain [OF h1 h2, of example_lib] by (intro conjI) blast+
qed



text \<open>
  C9. After \<open>load_data\<close> has returned, \<open>original_df\<close> is the frame that was read, and it
  still is after a call of \<open>apply_differential_privacy\<close>, after a call of
  \<open>apply_k_anonymity\<close>, and after any sequence of such calls, whether they return or raise.
\<close>

theorem original_snapshot_preserved:
  assumes "load_data L filepath s0 = (None, s1)"
  shows "\<exists>d. read_csv L filepath = Inr d \<and> original_df s1 = Some d \<and>
           original_df (snd (apply_differential_privacy L cols eps s1)) = Some d \<and>
           original_df (snd (apply_k_anonymity L qi k strategy s1)) = Some d \<and>
           original_df (run_calls L calls s1) = Some d"
proof -
  obtain d where d: "read_csv L filepath = Inr d" "original_df s1 = Some d"
    using assms by (auto simp: load_data_def split: if_splits sum.splits)
  then show ?thesis
    by (simp add: apply_dp_original k_anonymity_original run_calls_original)
qed

theorem original_snapshot_preserved_witness:
  "load_data example_lib ''data.csv'' example_initial
     = (None, snd (load_data example_lib ''data.csv'' example_initial)) \<and>
   original_df (run_calls example_lib [DP [''zip''] 2, KAnon [''city'', ''zip''] 2 ''suppression'',
                    KAnon [''city''] 2 ''bogus'']
       (snd (load_data example_lib ''data.csv'' example_initial))) = Some example_frame"
proof -
  have r: "read_csv example_lib ''data.csv'' = Inr example_frame" by (simp add: example_lib_def)
  show ?thesis
    using example_load r
      original_snapshot_preserved [OF example_load, of "[''zip'']" 2 "[''city'']" 2 "''bogus''"
        "[DP [''zip''] 2, KAnon [''city'', ''zip''] 2 ''suppression'', KAnon [''city''] 2 ''bogus'']"]
    by (intro conjI) auto
qed

text \<open>
  C10. The synthetic strategy picks the generator by the lower-cased column name:
  \<open>zip\<close> as a substring first, else \<open>gender\<close>, else \<open>occupation\<close> or \<open>job\<close>, else the generic
  word. A name with several of the patterns takes the first that matches, and names equal up
  to case take the same generator. In a call that returns, the generator of the column is
  called once for every cell to rewrite, group by group, column by column, row by row, each
  call on the state the call before left, the first on the state at the start of the call, and
  the state after the last call is the state the call leaves. Every rewritten cell holds the
  value of its own call (of the last one made for it, when a column is listed twice); with
  distinct columns no cell has two calls.
\<close>

theorem synthetic_own_calls:
  "(\<forall>p s. contains p s \<longleftrightarrow> (\<exists>a b. s = a @ p @ b))
   \<and> (contains ''zip'' (lower col) \<longrightarrow> synthetic_gen L col = fake_zipcode L)
   \<and> (\<not> contains ''zip'' (lower col) \<and> contains ''gender'' (lower col)
        \<longrightarrow> synthetic_gen L col = random_choice L [''Male'', ''Female''])
   \<and> (\<not> contains ''zip'' (lower col) \<and> \<not> contains ''gender'' (lower col)
        \<and> (contains ''occupation'' (lower col) \<or> contains ''job'' (lower col))
        \<longrightarrow> synthetic_gen L col = fake_job L)
   \<and> (\<not> contains ''zip'' (lower col) \<and> \<not> contains ''gender'' (lower col)
        \<and> \<not> contains ''occupation'' (lower col) \<and> \<not> contains ''job'' (lower col)
        \<longrightarrow> synthetic_gen L col = fake_word L)
   \<and> synthetic_gen L ''zip_gender'' = fake_zipcode L
   \<and> synthetic_gen L ''Gender_ZIP'' = fake_zipcode L
   \<and> (lower col = lower col' \<longrightarrow> synthetic_gen L col = synthetic_gen L col')
   \<and> (\<forall>fs g p. p < length fs \<longrightarrow>
          fst (gen_calls fs g) ! p
            = fst ((fs ! p :: 'g \<Rightarrow> string \<times> 'g) (snd (gen_calls (take p fs) g))))
   \<and> (apply_k_anonymity L cols k ''synthetic'' s = (None, s') \<and> df s = Some d \<and> wf_frame d
        \<longrightarrow>
       (\<exists>gs d' vals. groupby_groups L d cols = Inr gs \<and> df s' = Some d' \<and>
         (let calls = synthetic_calls cols (filter (\<lambda>(key, indices). int (length indices) < k) gs)
          in gen_calls (map (\<lambda>(c, i). synthetic_gen L c) calls) (rng s) = (vals, rng s') \<and>
             (distinct cols \<longrightarrow> distinct calls) \<and>
             set calls = set cols \<times> {i. i < nrows d \<and> int (length (class_of d cols i)) < k} \<and>
             (\<forall>p < length calls. (\<forall>q < length calls. p < q \<longrightarrow> calls ! q \<noteq> calls ! p) \<longrightarrow>
                cell d' (fst (calls ! p)) (snd (calls ! p)) = VStr (vals ! p)))))"
proof -
  have z: "contains p s \<longleftrightarrow> (\<exists>a b. s = a @ p @ b)" for p s by (rule contains_iff)
  have e1: "synthetic_gen L ''zip_gender'' = fake_zipcode L"
    by (simp add: synthetic_gen_def lower_def lower_char_def)
  have e2: "synthetic_gen L ''Gender_ZIP'' = fake_zipcode L"
    by (simp add: synthetic_gen_def lower_def lower_char_def)
  have nth: "\<forall>fs g p. p < length fs \<longrightarrow>
          fst (gen_calls fs g) ! p
            = fst ((fs ! p :: 'g \<Rightarrow> string \<times> 'g) (snd (gen_calls (take p fs) g)))"
    by (simp add: gen_calls_nth)
  have run: "apply_k_anonymity L cols k ''synthetic'' s = (None, s') \<and> df s = Some d \<and> wf_frame d
        \<longrightarrow>
       (\<exists>gs d' vals. groupby_groups L d cols = Inr gs \<and> df s' = Some d' \<and>
         (let calls = synthetic_calls cols (filter (\<lambda>(key, indices). int (length indices) < k) gs)
          in gen_calls (map (\<lambda>(c, i). synthetic_gen L c) calls) (rng s) = (vals, rng s') \<and>
             (distinct cols \<longrightarrow> distinct calls) \<and>
             set calls = set cols \<times> {i. i < nrows d \<and> int (length (class_of d cols i)) < k} \<and>
             (\<forall>p < length calls. (\<forall>q < length calls. p < q \<longrightarrow> calls ! q \<noteq> calls ! p) \<longrightarrow>
                cell d' (fst (calls ! p)) (snd (calls ! p)) = VStr (vals ! p))))"
    using synthetic_run_calls [of L cols k s s' d] by blast
  have disp: "synthetic_gen L col =
     (if contains ''zip'' (lower col) then fake_zipcode L
      else if contains ''gender'' (lower col) then random_choice L [''Male'', ''Female'']
      else if contains ''occupation'' (lower col) \<or> contains ''job'' (lower col) then fake_job L
      else fake_word L)" by (simp add: synthetic_gen_def)
  have same: "lower col = lower col' \<longrightarrow> synthetic_gen L col = synthetic_gen L col'"
    by (simp add: synthetic_gen_def)
  have d1: "contains ''zip'' (lower col) \<longrightarrow> synthetic_gen L col = fake_zipcode L"
    by (simp add: disp)
  have d2: "\<not> contains ''zip'' (lower col) \<and> contains ''gender'' (lower col)
        \<longrightarrow> synthetic_gen L col = random_choice L [''Male'', ''Female'']"
    by (simp add: disp)
  have d3: "\<not> contains ''zip'' (lower col) \<and> \<not> contains ''gender'' (lower col)
        \<and> (contains ''occupation'' (lower col) \<or> contains ''job'' (lower col))
        \<longrightarrow> synthetic_gen L col = fake_job L"
    by (simp add: disp)
  have d4: "\<not> contains ''zip'' (lower col) \<and> \<not> contains ''gender'' (lower col)
        \<and> \<not> contains ''occupation'' (lower col) \<and> \<not> contains ''job'' (lower col)
        \<longrightarrow> synthetic_gen L col = fake_word L"
    by (simp add: disp)
  have z': "\<forall>p s. contains p s \<longleftrightarrow> (\<exists>a b. s = a @ p @ b)" using z by blast
  show ?thesis
    using z' d1 d2 d3 d4 e1 e2 same nth run by (intro conjI)
qed

theorem synthetic_own_calls_witness:
  "synthetic_gen example_lib ''Zip_Code'' = fake_zipcode example_lib \<and>
   synthetic_gen example_lib ''GENDER'' = random_choice example_lib [''Male'', ''Female''] \<and>
   synthetic_gen example_lib ''Job title'' = fake_job example_lib \<and>
   synthetic_gen example_lib ''city'' = fake_word example_lib \<and>
   apply_k_anonymity example_lib [''city'', ''zip''] 2 ''synthetic'' example_state
     = (None, example_synthetic) \<and>
   df example_state = Some example_frame \<and> wf_frame example_frame \<and>
   (\<exists>gs d' vals. groupby_groups example_lib example_frame [''city'', ''zip''] = Inr gs \<and>
      df example_synthetic = Some d' \<and>
      (let calls = synthetic_calls [''city'', ''zip'']
                     (filter (\<lambda>(key, indices). int (length indices) < 2) gs)
       in gen_calls (map (\<lambda>(c, i). synthetic_gen example_lib c) calls) (rng example_state)
            = (vals, rng example_synthetic) \<and>
          (distinct [''city'', ''zip''] \<longrightarrow> distinct calls) \<and>
          set calls = set [''city'', ''zip'']
            \<times> {i. i < nrows example_frame \<and>
                   int (length (class_of example_frame [''city'', ''zip''] i)) < 2} \<and>
          (\<forall>p < length calls. (\<forall>q < length calls. p < q \<longrightarrow> calls ! q \<noteq> calls ! p) \<longrightarrow>
             cell d' (fst (calls ! p)) (snd (calls ! p)) = VStr (vals ! p))))"
proof -
  have c1: "contains ''zip'' (lower ''Zip_Code'')" by (simp add: lower_def lower_char_def)
  have c2: "\<not> contains ''zip'' (lower ''GENDER'') \<and> contains ''gender'' (lower ''GENDER'')"
    by (simp add: lower_def lower_char_def)
  have c3: "\<not> contains ''zip'' (lower ''Job title'') \<and> \<not> contains ''gender'' (lower ''Job title'')
     \<and> (contains ''occupation'' (lower ''Job title'') \<or> contains ''job'' (lower ''Job title''))"
    by (simp add: lower_def lower_char_def)
  have c4: "\<not> contains ''zip'' (lower ''city'') \<and> \<not> contains ''gender'' (lower ''city'')
     \<and> \<not> contains ''occupation'' (lower ''city'') \<and> \<not> contains ''job'' (lower ''city'')"
    by (simp add: lower_def lower_char_def)
  have c5: "apply_k_anonymity example_lib [''city'', ''zip''] 2 ''synthetic'' example_state
      = (None, example_synthetic) \<and> df example_state = Some example_frame \<and>
      wf_frame example_frame"
    using example_run_synthetic example_df example_wf by simp
  note own = synthetic_own_calls [where L = example_lib and col' = "''zip''"
      and cols = "[''city'', ''zip'']" and k = 2 and s = example_state
      and s' = example_synthetic and d = example_frame]
  have d1: "synthetic_gen example_lib ''Zip_Code'' = fake_zipcode example_lib"
    by (rule own [THEN conjunct2, THEN conjunct1, THEN mp, OF c1])
  have d2: "synthetic_gen example_lib ''GENDER'' = random_choice example_lib [''Male'', ''Female'']"
    by (rule own [THEN conjunct2, THEN conjunct2, THEN conjunct1, THEN mp, OF c2])
  have d3: "synthetic_gen example_lib ''Job title'' = fake_job example_lib"
    by (rule own [THEN conjunct2, THEN conjunct2, THEN conjunct2, THEN conjunct1, THEN mp,
          OF c3])
  have d4: "synthetic_gen example_lib ''city'' = fake_word example_lib"
    by (rule own [THEN conjunct2, THEN conjunct2, THEN conjunct2, THEN conjunct2,
          THEN conjunct1, THEN mp, OF c4])
  note r = own [where col = "''zip''", THEN conjunct2, THEN conjunct2, THEN conjunct2,
      THEN conjunct2, THEN conjunct2, THEN conjunct2, THEN conjunct2, THEN conjunct2,
      THEN conjunct2, THEN mp, OF c5]
  show ?thesis
    using d1 d2 d3 d4 example_run_synthetic example_df example_wf r
    by (intro conjI)
qed

end
